theory Spec2Isabelle
  imports Main "HOL-Library.Word" "HOL-Library.Multiset"
begin

unbundle bit_operations_syntax

section \<open>Stegano-Studio: the payload transport layer of stegano\_core.py\<close>

text \<open>
  Python \<open>bytes\<close> are lists of 8-bit words. Every \<open>raise\<close> of the source is a
  constructor of \<open>error\<close>; a function that can raise returns \<open>error + 'a\<close>.
\<close>

type_synonym byte = "8 word"
type_synonym bytes = "byte list"

datatype error =
    OverflowError              \<comment> \<open>\<open>int.to_bytes\<close>: int too big to convert\<close>
  | MarkerNotFoundOrTruncated  \<comment> \<open>\<open>ValueError("Marker not found or truncated.")\<close>\<close>
  | InvalidEmbeddedLength      \<comment> \<open>\<open>ValueError("Invalid embedded length (corrupted container).")\<close>\<close>
  | BitstringNotMultipleOf8    \<comment> \<open>\<open>ValueError("Bitstring length not multiple of 8")\<close>\<close>
  | InvalidLiteral             \<comment> \<open>\<open>ValueError\<close> of \<open>int(s)\<close> and \<open>int(s, 2)\<close>\<close>
  | CannotIdentifyImage        \<comment> \<open>the exception of \<open>Image.open\<close> on bytes that are no image\<close>
  | PayloadTooLarge            \<comment> \<open>\<open>ValueError("Payload too large for image capacity.")\<close>\<close>
  | IndexError                 \<comment> \<open>a list or array index out of range\<close>
  | ImageTooSmall              \<comment> \<open>\<open>ValueError("Image too small or corrupted (can't read header).")\<close>\<close>
  | MarkerNotFound             \<comment> \<open>\<open>ValueError("Marker not found in LSB data.")\<close>\<close>
  | LengthExceedsCapacity      \<comment> \<open>\<open>ValueError("Declared payload length exceeds image capacity or is corrupted.")\<close>\<close>
  | NotEncrypted               \<comment> \<open>\<open>ValueError("Payload not encrypted or invalid header.")\<close>\<close>
  | InvalidTag                 \<comment> \<open>\<open>cryptography.exceptions.InvalidTag\<close> of \<open>AESGCM.decrypt\<close>\<close>
  | CipherError                \<comment> \<open>any other exception of the \<open>cryptography\<close> package\<close>

subsection \<open>Constants\<close>

definition MARKER :: bytes where
  "MARKER = [0x53, 0x54, 0x45, 0x47, 0x30]"  \<comment> \<open>\<open>b"STEG0"\<close>\<close>

definition LENGTH_LEN :: nat where
  "LENGTH_LEN = 8"





subsection \<open>Python built-ins the source calls\<close>

text \<open>\<open>xs[a:b]\<close> for \<open>0 \<le> a\<close>, \<open>0 \<le> b\<close>: clipped to the sequence, empty when \<open>b \<le> a\<close>.\<close>

definition slice :: "'a list \<Rightarrow> nat \<Rightarrow> nat \<Rightarrow> 'a list" where
  "slice xs a b = take (b - a) (drop a xs)"

text \<open>\<open>xs.startswith(p)\<close>.\<close>

definition startswith :: "'a list \<Rightarrow> 'a list \<Rightarrow> bool" where
  "startswith xs p = (take (length p) xs = p)"

text \<open>
  \<open>n.to_bytes(k, "big")\<close> for \<open>n \<ge> 0\<close>: the \<open>k\<close> base-256 digits of \<open>n\<close>, most
  significant first; OverflowError when \<open>n\<close> does not fit.
\<close>

fun be_digits :: "nat \<Rightarrow> nat \<Rightarrow> bytes" where
  "be_digits 0 n = []"
| "be_digits (Suc k) n = be_digits k (n div 256) @ [of_nat (n mod 256)]"

definition to_bytes_big :: "nat \<Rightarrow> nat \<Rightarrow> error + bytes" where
  "to_bytes_big n k = (if n < 256 ^ k then Inr (be_digits k n) else Inl OverflowError)"

text \<open>\<open>int.from_bytes(bs, "big")\<close>.\<close>

definition from_bytes_big :: "bytes \<Rightarrow> nat" where
  "from_bytes_big bs = foldl (\<lambda>acc b. acc * 256 + unat b) 0 bs"

text \<open>
  \<open>xs.rfind(sub)\<close>: the highest index at which \<open>sub\<close> occurs in \<open>xs\<close>; Python's
  \<open>-1\<close> is \<open>None\<close>. The scan runs from the last position where \<open>sub\<close> still fits
  down to 0.
\<close>

definition occurs_at :: "'a list \<Rightarrow> 'a list \<Rightarrow> nat \<Rightarrow> bool" where
  "occurs_at sub xs i = (i + length sub \<le> length xs \<and> take (length sub) (drop i xs) = sub)"

fun rfind_down :: "'a list \<Rightarrow> 'a list \<Rightarrow> nat \<Rightarrow> nat option" where
  "rfind_down sub xs 0 = (if occurs_at sub xs 0 then Some 0 else None)"
| "rfind_down sub xs (Suc i) =
     (if occurs_at sub xs (Suc i) then Some (Suc i) else rfind_down sub xs i)"

definition rfind :: "'a list \<Rightarrow> 'a list \<Rightarrow> nat option" where
  "rfind xs sub =
     (if length sub \<le> length xs then rfind_down sub xs (length xs - length sub) else None)"

subsection \<open>Key derivation, encryption and decryption\<close>

text \<open>
  PBKDF2 and AES-GCM are the \<open>cryptography\<close> package's, not code of this repository;
  they are the fields of an environment:
  \<^item> \<open>pbkdf2_hmac_sha256 n salt iters pw\<close> is
    \<open>PBKDF2HMAC(algorithm=hashes.SHA256(), length=n, salt=salt, iterations=iters).derive(pw)\<close>;
  \<^item> \<open>aesgcm_encrypt key nonce data\<close> is \<open>AESGCM(key).encrypt(nonce, data, None)\<close> and
    \<open>aesgcm_decrypt key nonce ct\<close> is \<open>AESGCM(key).decrypt(nonce, ct, None)\<close>, \<open>Inl\<close> the
    exception when the call raises (\<open>InvalidTag\<close> when the tag does not verify);
  \<^item> \<open>utf8_encode\<close> is \<open>str.encode()\<close>.

  \<open>encrypt_payload\<close> draws its salt and its nonce from \<open>secrets.token_bytes\<close>; the two
  byte strings drawn are arguments of the model.
\<close>

record crypto =
  pbkdf2_hmac_sha256 :: "nat \<Rightarrow> bytes \<Rightarrow> nat \<Rightarrow> bytes \<Rightarrow> bytes"
  aesgcm_encrypt :: "bytes \<Rightarrow> bytes \<Rightarrow> bytes \<Rightarrow> error + bytes"
  aesgcm_decrypt :: "bytes \<Rightarrow> bytes \<Rightarrow> bytes \<Rightarrow> error + bytes"
  utf8_encode :: "string \<Rightarrow> bytes"




subsection \<open>EOF mode (append)\<close>

definition pack_stego :: "bytes \<Rightarrow> bytes \<Rightarrow> error + bytes" where
  "pack_stego carrier_bytes payload =
     (case to_bytes_big (length payload) LENGTH_LEN of
        Inl e \<Rightarrow> Inl e
      | Inr ln \<Rightarrow> Inr (carrier_bytes @ MARKER @ ln @ payload))"

definition unpack_stego :: "bytes \<Rightarrow> error + bytes" where
  "unpack_stego full =
     (case rfind full MARKER of
        None \<Rightarrow> Inl MarkerNotFoundOrTruncated
      | Some idx \<Rightarrow>
          if idx + length MARKER + LENGTH_LEN > length full then Inl MarkerNotFoundOrTruncated
          else
            let ln_off = idx + length MARKER;
                ln = from_bytes_big (slice full ln_off (ln_off + LENGTH_LEN));
                start = ln_off + LENGTH_LEN;
                end = start + ln
            in if end > length full then Inl InvalidEmbeddedLength
               else Inr (slice full start end))"

subsection \<open>The libraries behind the LSB mode\<close>

text \<open>
  The LSB functions call Pillow, NumPy, hashlib and \<open>random\<close>, which are not code of
  this repository. They are the fields of an environment that every LSB function takes:
  \<^item> \<open>image_open_rgb\<close> is \<open>Image.open(io.BytesIO(b)).convert("RGB")\<close>, \<open>None\<close> when
    it raises; an image is its \<open>size\<close> and the channel bytes of
    \<open>np.array(img).flatten()\<close> (row-major, three bytes per pixel);
  \<^item> \<open>save_png\<close> is \<open>Image.fromarray(a, mode="RGB").save(out, format="PNG")\<close>;
  \<^item> \<open>sha256\<close> is \<open>hashlib.sha256(b).digest()\<close> and \<open>str_encode\<close> is
    \<open>str.encode()\<close>;
  \<^item> \<open>shuffle seed xs\<close> is the list that \<open>random.Random(seed).shuffle(xs)\<close> leaves
    in \<open>xs\<close>.
\<close>

record image =
  width :: nat
  height :: nat
  pixels :: bytes

record env =
  image_open_rgb :: "bytes \<Rightarrow> image option"
  save_png :: "image \<Rightarrow> bytes"
  sha256 :: "bytes \<Rightarrow> bytes"
  str_encode :: "string \<Rightarrow> bytes"
  shuffle :: "nat \<Rightarrow> nat list \<Rightarrow> nat list"

subsection \<open>LSB mode (pixel LSB)\<close>

text \<open>\<open>f"{byte:08b}"\<close>: the eight binary digits of a byte, most significant first.\<close>

definition format_08b :: "byte \<Rightarrow> string" where
  "format_08b byte = map (\<lambda>k. if bit byte (7 - k) then CHR ''1'' else CHR ''0'') [0..<8]"

definition to_bitstring :: "bytes \<Rightarrow> string" where
  "to_bitstring b = concat (map format_08b b)"

text \<open>
  \<open>int(s, 2)\<close> on a non-empty string of the digits 0 and 1; ValueError on any other
  character. (Python also accepts a sign, a \<open>0b\<close> prefix, underscores and surrounding
  white space; \<open>extract_lsb\<close>, the only caller, passes digits only.)
\<close>

definition int_base2 :: "string \<Rightarrow> nat option" where
  "int_base2 s =
     (if s \<noteq> [] \<and> (\<forall>c \<in> set s. c = CHR ''0'' \<or> c = CHR ''1'')
      then Some (foldl (\<lambda>acc c. 2 * acc + (if c = CHR ''1'' then 1 else 0)) 0 s)
      else None)"

text \<open>The loop \<open>for i in range(0, len(bits), 8): out.append(int(bits[i:i+8], 2))\<close>.\<close>

fun from_bitstring_loop :: "string \<Rightarrow> error + bytes" where
  "from_bitstring_loop bits =
     (if bits = [] then Inr []
      else case int_base2 (take 8 bits) of
             None \<Rightarrow> Inl InvalidLiteral
           | Some v \<Rightarrow>
               (case from_bitstring_loop (drop 8 bits) of
                  Inl e \<Rightarrow> Inl e
                | Inr out \<Rightarrow> Inr (of_nat v # out)))"

definition from_bitstring :: "string \<Rightarrow> error + bytes" where
  "from_bitstring bits =
     (if length bits mod 8 \<noteq> 0 then Inl BitstringNotMultipleOf8
      else from_bitstring_loop bits)"

definition seed_from_password :: "env \<Rightarrow> string \<Rightarrow> nat option" where
  "seed_from_password E password =
     (if password = [] then None
      else let h = sha256 E (str_encode E password)
           in Some (from_bytes_big (take 8 h)))"

definition lsb_capacity_bytes :: "env \<Rightarrow> bytes \<Rightarrow> nat" where
  "lsb_capacity_bytes E carrier_bytes =
     (case image_open_rgb E carrier_bytes of
        None \<Rightarrow> 0
      | Some img \<Rightarrow>
          let w = width img; h = height img; total_bits = w * h * 3
          in total_bits div 8)"

text \<open>
  Lines 186 to 190 of \<open>embed_lsb\<close> and lines 215 to 219 of \<open>extract_lsb\<close>: each function
  builds its own index list.
\<close>

definition embed_indices :: "env \<Rightarrow> nat \<Rightarrow> string \<Rightarrow> nat list" where
  "embed_indices E flat_size password =
     (let indices = [0..<flat_size]
      in case seed_from_password E password of
           None \<Rightarrow> indices
         | Some seed \<Rightarrow> shuffle E seed indices)"

definition extract_indices :: "env \<Rightarrow> nat \<Rightarrow> string \<Rightarrow> nat list" where
  "extract_indices E data_size password =
     (let indices = [0..<data_size]
      in case seed_from_password E password of
           None \<Rightarrow> indices
         | Some seed \<Rightarrow> shuffle E seed indices)"

text \<open>\<open>int(bit)\<close> on one character: a decimal digit, else ValueError.\<close>

definition int_of_digit :: "char \<Rightarrow> nat option" where
  "int_of_digit c =
     (let n = (of_char c :: nat) in if 48 \<le> n \<and> n \<le> 57 then Some (n - 48) else None)"

text \<open>
  The loop \<open>for i, bit in enumerate(bits): idx = indices[i];
  flat[idx] = (flat[idx] & 0xFE) | int(bit)\<close> on the array \<open>flat\<close>; an index out of
  range raises IndexError. (\<open>bit_i\<close> is the source's \<open>bit\<close>.)
\<close>

fun embed_loop :: "nat list \<Rightarrow> (nat \<times> char) list \<Rightarrow> bytes \<Rightarrow> error + bytes" where
  "embed_loop indices [] flat = Inr flat"
| "embed_loop indices ((i, bit_i) # rest) flat =
     (if length indices \<le> i then Inl IndexError
      else let idx = indices ! i
           in if length flat \<le> idx then Inl IndexError
              else case int_of_digit bit_i of
                     None \<Rightarrow> Inl InvalidLiteral
                   | Some v \<Rightarrow>
                       embed_loop indices rest (flat[idx := (flat ! idx AND 0xFE) OR of_nat v]))"

definition embed_lsb :: "env \<Rightarrow> bytes \<Rightarrow> bytes \<Rightarrow> string \<Rightarrow> error + bytes" where
  "embed_lsb E carrier_bytes payload password =
     (case image_open_rgb E carrier_bytes of
        None \<Rightarrow> Inl CannotIdentifyImage
      | Some img \<Rightarrow>
          let flat = pixels img;
              bits = to_bitstring payload
          in if length bits > length flat then Inl PayloadTooLarge
             else let indices = embed_indices E (length flat) password
                  in case embed_loop indices (enumerate 0 bits) flat of
                       Inl e \<Rightarrow> Inl e
                     | Inr new_data \<Rightarrow> Inr (save_png E (img\<lparr>pixels := new_data\<rparr>)))"

text \<open>
  \<open>"".join(str(int(data[indices[i]] & 1)) for i in range(n))\<close>: one digit per index.
\<close>

definition read_bit :: "bytes \<Rightarrow> nat list \<Rightarrow> nat \<Rightarrow> error + char" where
  "read_bit data indices i =
     (if length indices \<le> i then Inl IndexError
      else let idx = indices ! i
           in if length data \<le> idx then Inl IndexError
              else Inr (if data ! idx AND 1 = 1 then CHR ''1'' else CHR ''0''))"

fun read_bits :: "bytes \<Rightarrow> nat list \<Rightarrow> nat list \<Rightarrow> error + string" where
  "read_bits data indices [] = Inr []"
| "read_bits data indices (i # rest) =
     (case read_bit data indices i of
        Inl e \<Rightarrow> Inl e
      | Inr c \<Rightarrow>
          (case read_bits data indices rest of
             Inl e \<Rightarrow> Inl e
           | Inr cs \<Rightarrow> Inr (c # cs)))"

definition extract_lsb :: "env \<Rightarrow> bytes \<Rightarrow> string \<Rightarrow> error + bytes" where
  "extract_lsb E stego_bytes password =
     (case image_open_rgb E stego_bytes of
        None \<Rightarrow> Inl CannotIdentifyImage
      | Some img \<Rightarrow>
          let data = pixels img;
              indices = extract_indices E (length data) password;
              header_bytes_len = length MARKER + LENGTH_LEN;
              header_bits_len = header_bytes_len * 8
          in if header_bits_len > length indices then Inl ImageTooSmall
             else case read_bits data indices [0..<header_bits_len] of
                    Inl e \<Rightarrow> Inl e
                  | Inr header_bits \<Rightarrow>
                      (case from_bitstring header_bits of
                         Inl e \<Rightarrow> Inl e
                       | Inr header_bytes \<Rightarrow>
                           if \<not> startswith header_bytes MARKER then Inl MarkerNotFound
                           else
                             let ln = from_bytes_big
                                   (slice header_bytes (length MARKER) (length MARKER + LENGTH_LEN));
                                 payload_total_bytes = header_bytes_len + ln;
                                 total_bits_needed = payload_total_bytes * 8
                             in if total_bits_needed > length indices then Inl LengthExceedsCapacity
                                else case read_bits data indices [0..<total_bits_needed] of
                                       Inl e \<Rightarrow> Inl e
                                     | Inr bits \<Rightarrow> from_bitstring bits))"

subsection \<open>A test environment\<close>

text \<open>
  Stand-ins for the libraries, used only to instantiate the theorems at concrete inputs:
  an image file is its width, its height and its channel bytes; the digest is the first 32
  bytes of its input, padded with zeros; the shuffle reverses the list on an even seed and
  rotates it by one on an odd seed.
\<close>

definition test_open :: "bytes \<Rightarrow> image option" where
  "test_open b =
     (case b of
        w # h # px \<Rightarrow>
          if length px = unat w * unat h * 3
          then Some \<lparr>width = unat w, height = unat h, pixels = px\<rparr>
          else None
      | _ \<Rightarrow> None)"

definition test_save :: "image \<Rightarrow> bytes" where
  "test_save img = of_nat (width img) # of_nat (height img) # pixels img"

definition test_env :: env where
  "test_env =
     \<lparr>image_open_rgb = test_open,
      save_png = test_save,
      sha256 = (\<lambda>b. take 32 (b @ replicate 32 0)),
      str_encode = map (\<lambda>c. of_nat (of_char c)),
      shuffle = (\<lambda>seed xs. if even seed then rev xs else rotate1 xs)\<rparr>"

subsection \<open>The cipher at two passwords\<close>

text \<open>
  HMAC replaces a key longer than its 64-byte block by the key's digest, so PBKDF2 with
  HMAC-SHA-256 derives one key from a password of more than 64 bytes and from the password
  whose bytes are the SHA-256 digest of the first. \<open>long_password\<close> has 80 bytes;
  its digest is the UTF-8 encoding of a string of 29 code points, \<open>digest_password\<close>,
  written here as those 32 bytes (a password is the list of the bytes of its UTF-8
  encoding). \<open>cpython_crypto\<close> holds what the libraries return at the inputs of one run,
  with the salt \<open>bytes(range(16))\<close> and the nonce \<open>bytes(range(0xa0, 0xac))\<close>:
  \<^item> \<open>derived_key\<close> is the value of
    \<open>hashlib.pbkdf2_hmac("sha256", pw, salt, 200000, 32)\<close> for both passwords;
  \<^item> \<open>sealed_secret\<close> is the AES-256-GCM encryption (OpenSSL) of \<open>b"secret"\<close> under
    that key and nonce with no associated data, 6 bytes of ciphertext and the 16-byte tag;
    decryption of \<open>sealed_secret\<close> gives \<open>b"secret"\<close>, and decryption of
    \<open>sealed_secret\<close> with the lowest bit of its first byte flipped fails.
  At any other input the key is empty, encryption raises and decryption fails.
\<close>

definition long_password :: string where
  "long_password = ''a-long-passphrase-of-more-than-sixty-four-bytes-for-the-key-derivation-138978744''"

definition digest_password :: string where
  "digest_password =
    [CHR 0x40, CHR 0x4B, CHR 0x1D, CHR 0x63, CHR 0x2D, CHR 0xDF, CHR 0x88, CHR 0x76, CHR 0x58,
     CHR 0x06, CHR 0x16, CHR 0x1F, CHR 0x33, CHR 0x3E, CHR 0x38, CHR 0x55, CHR 0x63, CHR 0xEC,
     CHR 0x8C, CHR 0x84, CHR 0x65, CHR 0x79, CHR 0x62, CHR 0x1E, CHR 0x1E, CHR 0x78, CHR 0x63,
     CHR 0x5E, CHR 0x50, CHR 0x7A, CHR 0x2B, CHR 0x03]"

definition derived_key :: bytes where
  "derived_key =
    [0x66, 0x96, 0x84, 0xAF, 0xEE, 0xE9, 0x55, 0x59, 0x7C, 0x44, 0x44, 0x1E, 0xA2, 0x19, 0xFC,
     0x21, 0xAD, 0x53, 0x56, 0xF1, 0xB4, 0x4B, 0x16, 0x3E, 0xE3, 0x0F, 0xE6, 0x8A, 0x94, 0x2F,
     0x32, 0x56]"

definition sealed_secret :: bytes where
  "sealed_secret =
    [0xBE, 0x95, 0x4D, 0xFA, 0x82, 0x84, 0xB1, 0x77, 0x9E, 0xBE, 0xFD, 0x60, 0xF6, 0xE6, 0x50,
     0xD7, 0xBB, 0x16, 0xAD, 0xA1, 0xE9, 0x6B]"

definition cpython_crypto :: crypto where
  "cpython_crypto =
     \<lparr>pbkdf2_hmac_sha256 = (\<lambda>n salt iters pw.
         if n = 32 \<and> salt = map of_nat [0..<16] \<and> iters = 200000 \<and>
            (pw = map (\<lambda>c. of_nat (of_char c)) long_password \<or>
             pw = map (\<lambda>c. of_nat (of_char c)) digest_password)
         then derived_key else []),
      aesgcm_encrypt = (\<lambda>key nonce data.
         if key = derived_key \<and> nonce = map of_nat [160..<172] \<and>
            data = [0x73, 0x65, 0x63, 0x72, 0x65, 0x74]
         then Inr sealed_secret else Inl CipherError),
      aesgcm_decrypt = (\<lambda>key nonce ct.
         if key = derived_key \<and> nonce = map of_nat [160..<172] \<and> ct = sealed_secret
         then Inr [0x73, 0x65, 0x63, 0x72, 0x65, 0x74] else Inl InvalidTag),
      utf8_encode = map (\<lambda>c. of_nat (of_char c))\<rparr>"

subsection \<open>The libraries at two passwords\<close>

text \<open>
  What CPython returns at the inputs of one run: \<open>hashlib.sha256(b"pw").digest()\<close> and
  \<open>hashlib.sha256(b"k60056").digest()\<close>, whose first 8 bytes are the seeds
  \<open>0x30c952fab122c3f9\<close> and \<open>0x0e492236b20da16b\<close>, and the list that
  \<open>random.Random(seed).shuffle\<close> leaves in \<open>list(range(300))\<close> for each of the two seeds.
  \<open>cpython_env\<close> holds these values; at any other input its digest is empty and its
  shuffle returns the list as it is. The image file format is the test environment's.
\<close>

definition sha256_pw :: bytes where
  "sha256_pw =
    [0x30, 0xC9, 0x52, 0xFA, 0xB1, 0x22, 0xC3, 0xF9, 0x75, 0x9F, 0x02, 0xA6, 0xD9, 0x5C, 0x37,
     0x58, 0xB2, 0x46, 0xB4, 0xFE, 0xE2, 0x39, 0x95, 0x7B, 0x2D, 0x4F, 0xEE, 0x46, 0xE2, 0x61,
     0x70, 0xC4]"

definition sha256_k60056 :: bytes where
  "sha256_k60056 =
    [0x0E, 0x49, 0x22, 0x36, 0xB2, 0x0D, 0xA1, 0x6B, 0x5D, 0xF1, 0x51, 0x05, 0x77, 0xE0, 0xF8,
     0x62, 0xE9, 0xAF, 0xD6, 0x15, 0x19, 0x14, 0xAB, 0xD4, 0x6F, 0x50, 0x52, 0x51, 0xDD, 0x10,
     0xFC, 0x3B]"

definition order_pw :: "nat list" where
  "order_pw =
    [216, 67, 25, 294, 229, 19, 16, 237, 44, 245, 110, 167, 272, 58, 132, 144, 95, 295, 197,
     152, 184, 105, 88, 42, 52, 173, 287, 149, 35, 260, 291, 89, 1, 9, 221, 142, 267, 186, 14,
     189, 64, 122, 0, 165, 210, 130, 84, 36, 285, 131, 83, 162, 57, 176, 45, 147, 226, 257, 273,
     139, 124, 164, 137, 94, 85, 66, 246, 224, 282, 117, 155, 200, 100, 115, 146, 92, 12, 243,
     153, 250, 31, 79, 222, 163, 244, 104, 47, 140, 72, 123, 32, 62, 102, 284, 293, 178, 93,
     238, 6, 183, 27, 118, 194, 75, 103, 65, 211, 254, 41, 217, 109, 180, 136, 161, 264, 198,
     68, 24, 255, 234, 219, 156, 107, 17, 128, 232, 20, 286, 22, 51, 168, 38, 97, 174, 239, 192,
     259, 283, 141, 148, 39, 23, 135, 269, 5, 113, 227, 98, 195, 159, 127, 233, 187, 138, 121,
     225, 133, 143, 96, 236, 59, 55, 279, 70, 18, 247, 231, 230, 206, 209, 74, 34, 86, 207, 275,
     252, 228, 251, 175, 53, 125, 30, 29, 120, 48, 262, 126, 151, 191, 111, 33, 2, 220, 37, 7,
     21, 46, 150, 112, 205, 171, 154, 281, 82, 63, 81, 40, 11, 160, 204, 181, 172, 288, 297,
     188, 203, 223, 193, 170, 292, 290, 208, 15, 50, 91, 145, 298, 73, 268, 108, 199, 240, 214,
     277, 61, 99, 158, 235, 261, 129, 56, 76, 289, 265, 202, 166, 101, 190, 218, 299, 78, 274,
     196, 26, 276, 114, 296, 271, 90, 71, 54, 249, 182, 13, 179, 248, 49, 278, 134, 270, 263,
     185, 213, 8, 241, 4, 80, 10, 3, 242, 201, 43, 116, 215, 266, 169, 60, 280, 212, 106, 177,
     256, 119, 28, 157, 87, 253, 258, 69, 77]"

definition order_k60056 :: "nat list" where
  "order_k60056 =
    [191, 34, 75, 225, 19, 45, 69, 37, 261, 38, 239, 278, 91, 204, 172, 160, 9, 209, 265, 104,
     297, 268, 176, 295, 64, 50, 165, 92, 253, 185, 67, 116, 219, 73, 30, 228, 87, 163, 283,
     156, 0, 208, 282, 32, 231, 275, 281, 276, 17, 133, 124, 131, 177, 187, 148, 289, 94, 170,
     121, 203, 166, 186, 257, 66, 189, 12, 178, 60, 18, 114, 134, 251, 122, 39, 62, 213, 292,
     190, 120, 217, 175, 85, 5, 234, 247, 252, 101, 255, 296, 197, 236, 79, 232, 248, 139, 48,
     210, 287, 151, 155, 137, 106, 80, 284, 167, 108, 222, 229, 35, 1, 26, 22, 113, 41, 154,
     112, 153, 13, 193, 33, 273, 198, 159, 224, 23, 107, 110, 95, 56, 93, 242, 132, 52, 221,
     144, 233, 2, 123, 258, 147, 256, 130, 293, 269, 14, 100, 267, 226, 49, 174, 15, 44, 218,
     216, 271, 173, 128, 260, 71, 285, 279, 171, 24, 192, 136, 16, 145, 140, 97, 90, 254, 212,
     142, 230, 274, 102, 266, 270, 98, 138, 105, 65, 99, 162, 168, 264, 272, 78, 158, 237, 206,
     211, 291, 125, 146, 72, 249, 109, 207, 115, 126, 36, 143, 215, 262, 54, 46, 194, 299, 89,
     238, 290, 29, 201, 58, 21, 298, 135, 31, 70, 47, 28, 250, 27, 241, 6, 183, 244, 55, 3, 11,
     42, 277, 88, 164, 202, 68, 83, 96, 74, 43, 157, 111, 223, 8, 280, 40, 84, 220, 179, 288,
     129, 53, 150, 76, 169, 235, 294, 149, 196, 286, 51, 182, 240, 263, 141, 180, 181, 214, 199,
     57, 188, 245, 161, 243, 82, 195, 259, 4, 86, 152, 59, 119, 63, 103, 246, 205, 184, 25, 10,
     77, 20, 117, 200, 118, 61, 127, 7, 81, 227]"

definition cpython_env :: env where
  "cpython_env =
     \<lparr>image_open_rgb = test_open,
      save_png = test_save,
      sha256 = (\<lambda>b. if b = [0x70, 0x77] then sha256_pw
                   else if b = [0x6B, 0x36, 0x30, 0x30, 0x35, 0x36] then sha256_k60056
                   else []),
      str_encode = map (\<lambda>c. of_nat (of_char c)),
      shuffle = (\<lambda>seed xs.
         if seed = 0x30c952fab122c3f9 \<and> length xs = 300 then order_pw
         else if seed = 0x0e492236b20da16b \<and> length xs = 300 then order_k60056
         else xs)\<rparr>"

text \<open>
  A 10 by 10 carrier: the least significant bit of the channel byte at the \<open>i\<close>-th index of
  the order of \<open>"k60056"\<close> is bit \<open>i\<close> of \<open>b"STEG0"\<close> followed by eight zero bytes, for
  \<open>i < 104\<close>; every other byte is 0. And the pixels after embedding that 13-byte frame in
  the order of \<open>"pw"\<close>.
\<close>

definition crafted_pixels :: bytes where
  "crafted_pixels =
    [0, 0, 0, 0, 0, 0, 0, 0, 0, 0, 0, 0, 0, 0, 0, 0, 0, 0, 0, 0, 0, 0, 0, 0, 0, 0, 0, 0, 0, 0,
     1, 0, 0, 0, 1, 0, 0, 1, 1, 0, 0, 0, 0, 0, 0, 0, 0, 0, 0, 0, 1, 0, 0, 0, 0, 0, 0, 0, 0, 0,
     0, 0, 0, 0, 0, 0, 0, 1, 0, 1, 0, 0, 0, 0, 0, 0, 0, 0, 0, 0, 0, 0, 0, 0, 0, 0, 0, 0, 0, 0,
     0, 0, 0, 0, 0, 0, 0, 0, 0, 0, 0, 0, 0, 0, 0, 0, 0, 0, 0, 0, 0, 0, 0, 0, 0, 0, 1, 0, 0, 0,
     0, 0, 0, 0, 0, 0, 0, 0, 0, 0, 0, 0, 0, 0, 0, 0, 0, 0, 0, 0, 0, 0, 0, 0, 0, 0, 0, 0, 0, 0,
     0, 0, 0, 0, 0, 0, 0, 0, 0, 0, 0, 0, 0, 0, 0, 0, 0, 0, 0, 0, 0, 0, 0, 0, 0, 0, 0, 0, 0, 0,
     0, 0, 0, 0, 0, 1, 0, 0, 0, 0, 0, 0, 0, 0, 0, 0, 0, 0, 0, 0, 0, 0, 0, 0, 1, 0, 0, 0, 0, 1,
     0, 0, 0, 0, 0, 0, 0, 0, 0, 0, 0, 0, 0, 0, 0, 1, 0, 0, 1, 0, 0, 0, 0, 0, 0, 0, 0, 0, 0, 0,
     0, 0, 0, 0, 0, 0, 0, 0, 0, 0, 0, 0, 0, 0, 0, 0, 0, 0, 0, 0, 0, 0, 0, 0, 0, 0, 0, 0, 1, 0,
     0, 0, 0, 0, 0, 0, 0, 0, 1, 0, 0, 0, 0, 0, 0, 0, 0, 0, 0, 0, 0, 0, 0, 0, 0, 1, 0, 0, 0, 0]"

definition stego_pixels :: bytes where
  "stego_pixels =
    [0, 0, 0, 0, 0, 0, 0, 0, 0, 0, 0, 0, 0, 0, 0, 0, 1, 0, 0, 0, 0, 0, 0, 0, 0, 0, 0, 0, 0, 0,
     1, 0, 0, 0, 1, 0, 0, 1, 1, 0, 0, 0, 1, 0, 0, 0, 0, 0, 0, 0, 1, 0, 0, 0, 0, 0, 0, 0, 1, 0,
     0, 0, 0, 0, 0, 0, 0, 1, 0, 1, 0, 0, 0, 0, 0, 0, 0, 0, 0, 0, 0, 0, 0, 0, 0, 0, 0, 0, 0, 1,
     0, 0, 0, 0, 0, 0, 0, 0, 0, 0, 0, 0, 0, 0, 0, 1, 0, 0, 0, 0, 0, 0, 0, 0, 0, 0, 1, 0, 0, 0,
     0, 0, 0, 0, 0, 0, 0, 0, 0, 0, 0, 0, 0, 0, 0, 0, 0, 0, 0, 0, 0, 0, 1, 0, 0, 0, 0, 0, 0, 0,
     0, 0, 0, 0, 0, 0, 0, 0, 0, 0, 0, 0, 0, 0, 0, 0, 0, 1, 0, 0, 0, 0, 0, 1, 0, 0, 0, 0, 0, 0,
     0, 0, 0, 0, 0, 1, 0, 0, 0, 0, 0, 0, 0, 0, 0, 0, 0, 0, 0, 0, 0, 0, 0, 0, 1, 0, 0, 0, 0, 1,
     0, 0, 0, 0, 0, 0, 0, 0, 0, 0, 0, 1, 0, 0, 0, 1, 0, 0, 1, 0, 0, 0, 0, 0, 0, 0, 0, 1, 0, 0,
     0, 0, 0, 0, 0, 1, 0, 0, 0, 0, 0, 0, 0, 0, 0, 0, 0, 0, 0, 0, 1, 0, 0, 0, 0, 0, 0, 0, 1, 0,
     0, 0, 0, 0, 0, 0, 0, 0, 1, 0, 0, 0, 0, 0, 0, 0, 0, 0, 0, 0, 0, 1, 0, 0, 1, 1, 0, 0, 0, 0]"

subsection \<open>What the claims assume of the libraries\<close>



text \<open>
  The shuffle returns a permutation of the index range; images decode to three bytes per
  pixel; and saving as PNG loses nothing: an image with the size of \<open>img\<close> decodes to
  itself.
\<close>

definition shuffle_permutes :: "env \<Rightarrow> nat \<Rightarrow> bool" where
  "shuffle_permutes E n = (\<forall>seed. mset (shuffle E seed [0..<n]) = mset [0..<n])"

definition rgb_shaped :: "image \<Rightarrow> bool" where
  "rgb_shaped img = (length (pixels img) = width img * height img * 3)"

definition png_lossless :: "env \<Rightarrow> image \<Rightarrow> bool" where
  "png_lossless E img =
     (\<forall>px. length px = length (pixels img) \<longrightarrow>
        image_open_rgb E (save_png E (img\<lparr>pixels := px\<rparr>)) = Some (img\<lparr>pixels := px\<rparr>))"

text \<open>Bit \<open>i\<close> of a byte string, most significant bit first within each byte.\<close>

definition frame_bit :: "bytes \<Rightarrow> nat \<Rightarrow> bool" where
  "frame_bit F i = bit (F ! (i div 8)) (7 - i mod 8)"

text \<open>
  The digit that \<open>str(int(x & 1))\<close> and \<open>f"{byte:08b}"\<close> write for a bit, and the
  string of the least significant bits of \<open>data\<close> at the first \<open>n\<close> indices.
\<close>

definition digit_char :: "bool \<Rightarrow> char" where
  "digit_char b = (if b then CHR ''1'' else CHR ''0'')"

definition lsb_string :: "bytes \<Rightarrow> nat list \<Rightarrow> nat \<Rightarrow> string" where
  "lsb_string data indices n = map (\<lambda>i. digit_char (bit (data ! (indices ! i)) 0)) [0..<n]"

section \<open>Properties\<close>

subsection \<open>Big-endian integers\<close>

lemma length_be_digits [simp]: "length (be_digits k n) = k"
  by (induction k arbitrary: n) auto

lemma from_bytes_big_snoc:
  "from_bytes_big (bs @ [b]) = from_bytes_big bs * 256 + unat b"
  by (simp add: from_bytes_big_def)

lemma from_be_digits: "n < 256 ^ k \<Longrightarrow> from_bytes_big (be_digits k n) = n"
proof (induction k arbitrary: n)
  case 0
  then show ?case by (simp add: from_bytes_big_def)
next
  case (Suc k)
  have d: "n div 256 < 256 ^ k"
    using Suc.prems by (simp add: less_mult_imp_div_less mult.commute)
  have u: "unat (of_nat (n mod 256) :: byte) = n mod 256"
    by (simp add: unat_of_nat)
  show ?case
    using Suc.IH [OF d] u by (simp add: from_bytes_big_snoc del: of_nat_mod)
qed

lemma be_digits_numeral:
  "be_digits (numeral k) n = be_digits (pred_numeral k) (n div 256) @ [of_nat (n mod 256)]"
  by (simp only: numeral_eq_Suc [of k] be_digits.simps)

subsection \<open>\<open>rfind\<close> returns the last occurrence\<close>

lemma rfind_down_Some:
  "rfind_down sub xs n = Some i \<Longrightarrow>
     occurs_at sub xs i \<and> i \<le> n \<and> (\<forall>j. i < j \<and> j \<le> n \<longrightarrow> \<not> occurs_at sub xs j)"
proof (induction n)
  case 0
  then show ?case by (auto split: if_splits)
next
  case (Suc n)
  show ?case
  proof (cases "occurs_at sub xs (Suc n)")
    case True
    with Suc.prems show ?thesis by auto
  next
    case False
    with Suc.prems have "rfind_down sub xs n = Some i" by simp
    from Suc.IH [OF this] False show ?thesis
      by (auto simp: le_Suc_eq)
  qed
qed

lemma rfind_down_None:
  "rfind_down sub xs n = None \<Longrightarrow> j \<le> n \<Longrightarrow> \<not> occurs_at sub xs j"
  by (induction n) (auto split: if_splits simp: le_Suc_eq)

lemma occurs_at_bound: "occurs_at sub xs j \<Longrightarrow> j \<le> length xs - length sub \<and> length sub \<le> length xs"
  by (auto simp: occurs_at_def)

lemma rfind_Some_iff:
  "rfind xs sub = Some i \<longleftrightarrow> occurs_at sub xs i \<and> (\<forall>j>i. \<not> occurs_at sub xs j)"
proof
  assume r: "rfind xs sub = Some i"
  then have le: "length sub \<le> length xs"
    and d: "rfind_down sub xs (length xs - length sub) = Some i"
    by (auto simp: rfind_def split: if_splits)
  from rfind_down_Some [OF d] show "occurs_at sub xs i \<and> (\<forall>j>i. \<not> occurs_at sub xs j)"
    using occurs_at_bound by blast
next
  assume a: "occurs_at sub xs i \<and> (\<forall>j>i. \<not> occurs_at sub xs j)"
  then have le: "length sub \<le> length xs" and b: "i \<le> length xs - length sub"
    using occurs_at_bound by blast+
  show "rfind xs sub = Some i"
  proof (cases "rfind_down sub xs (length xs - length sub)")
    case None
    from rfind_down_None [OF None b] a show ?thesis by simp
  next
    case (Some k)
    from rfind_down_Some [OF Some]
    have k: "occurs_at sub xs k" and kn: "\<forall>j. k < j \<and> j \<le> length xs - length sub \<longrightarrow> \<not> occurs_at sub xs j"
      by blast+
    have "\<not> k < i" using kn b a by blast
    moreover have "\<not> i < k" using k a by blast
    ultimately have "k = i" by simp
    with Some le show ?thesis by (simp add: rfind_def)
  qed
qed

lemma rfind_None_iff:
  "rfind xs sub = None \<longleftrightarrow> (\<forall>j. \<not> occurs_at sub xs j)"
proof
  assume r: "rfind xs sub = None"
  show "\<forall>j. \<not> occurs_at sub xs j"
  proof (intro allI notI)
    fix j assume o: "occurs_at sub xs j"
    then have "length sub \<le> length xs" "j \<le> length xs - length sub"
      using occurs_at_bound by blast+
    with r have "rfind_down sub xs (length xs - length sub) = None"
      by (simp add: rfind_def)
    from rfind_down_None [OF this \<open>j \<le> length xs - length sub\<close>] o show False by simp
  qed
next
  assume a: "\<forall>j. \<not> occurs_at sub xs j"
  show "rfind xs sub = None"
  proof (cases "rfind xs sub")
    case None then show ?thesis .
  next
    case (Some i)
    then show ?thesis using a rfind_Some_iff by blast
  qed
qed

subsection \<open>The frame that \<open>pack_stego\<close> appends\<close>

lemma length_MARKER [simp]: "length MARKER = 5"
  by (simp add: MARKER_def)

lemma occurs_at_append_self: "occurs_at sub (C @ sub @ rest) (length C)"
  by (simp add: occurs_at_def)

lemma occurs_at_nth:
  assumes o: "occurs_at sub xs j" and k: "k < length sub"
  shows "xs ! (j + k) = sub ! k"
proof -
  from o have eq: "take (length sub) (drop j xs) = sub" and le: "j \<le> length xs"
    by (simp_all add: occurs_at_def)
  have "sub ! k = take (length sub) (drop j xs) ! k"
    by (simp only: eq)
  also have "\<dots> = drop j xs ! k"
    by (rule nth_take [OF k])
  also have "\<dots> = xs ! (j + k)"
    using le by simp
  finally show ?thesis by simp
qed

lemma MARKER_no_overlap:
  assumes o: "occurs_at MARKER (C @ MARKER @ rest) j" and j: "length C < j"
  shows "length C + 5 \<le> j"
proof (rule ccontr)
  assume "\<not> length C + 5 \<le> j"
  with j have k: "j = length C + 1 \<or> j = length C + 2 \<or> j = length C + 3 \<or> j = length C + 4"
    by arith
  from occurs_at_nth [OF o, of 0] have "(C @ MARKER @ rest) ! j = 0x53"
    by (simp add: MARKER_def)
  with k show False
    by (auto simp: nth_append MARKER_def)
qed

lemma occurs_at_shift:
  "length C \<le> j \<Longrightarrow> occurs_at sub (C @ xs) j = occurs_at sub xs (j - length C)"
  by (auto simp: occurs_at_def)

lemma rfind_after_marker:
  "rfind (C @ MARKER @ rest) MARKER = Some (length C) \<longleftrightarrow> (\<forall>j. \<not> occurs_at MARKER rest j)"
proof -
  let ?full = "C @ MARKER @ rest"
  have shift: "occurs_at MARKER ?full j = occurs_at MARKER rest (j - length C - 5)"
    if "length C + 5 \<le> j" for j
    using that occurs_at_shift [of "C @ MARKER" j MARKER rest] by simp
  have "(\<forall>j>length C. \<not> occurs_at MARKER ?full j) \<longleftrightarrow> (\<forall>j. \<not> occurs_at MARKER rest j)"
  proof
    assume a: "\<forall>j>length C. \<not> occurs_at MARKER ?full j"
    show "\<forall>j. \<not> occurs_at MARKER rest j"
    proof
      fix j
      from a have "\<not> occurs_at MARKER ?full (length C + 5 + j)" by simp
      then show "\<not> occurs_at MARKER rest j"
        using shift [of "length C + 5 + j"] by simp
    qed
  next
    assume a: "\<forall>j. \<not> occurs_at MARKER rest j"
    show "\<forall>j>length C. \<not> occurs_at MARKER ?full j"
    proof (intro allI impI notI)
      fix j assume j: "length C < j" and o: "occurs_at MARKER ?full j"
      from MARKER_no_overlap [OF o j] have "length C + 5 \<le> j" .
      from shift [OF this] o a show False by simp
    qed
  qed
  then show ?thesis
    by (simp add: rfind_Some_iff occurs_at_append_self)
qed

lemma rfind_frame_exists:
  "\<exists>idx. rfind (C @ MARKER @ rest) MARKER = Some idx \<and> length C \<le> idx
     \<and> (idx = length C \<or> length C + 5 \<le> idx)"
proof (cases "rfind (C @ MARKER @ rest) MARKER")
  case None
  then show ?thesis
    using occurs_at_append_self [of MARKER C rest] by (simp add: rfind_None_iff)
next
  case (Some idx)
  then have o: "occurs_at MARKER (C @ MARKER @ rest) idx"
    and l: "\<forall>j>idx. \<not> occurs_at MARKER (C @ MARKER @ rest) j"
    by (simp_all add: rfind_Some_iff)
  from l occurs_at_append_self [of MARKER C rest] have ge: "length C \<le> idx"
    by (meson not_le)
  show ?thesis
  proof (cases "idx = length C")
    case True
    with Some show ?thesis by simp
  next
    case False
    with ge have "length C < idx" by simp
    from MARKER_no_overlap [OF o this] Some ge show ?thesis by simp
  qed
qed

lemma unpack_stego_at:
  "rfind full MARKER = Some idx \<Longrightarrow>
   unpack_stego full =
     (if length full < idx + 13 then Inl MarkerNotFoundOrTruncated
      else if length full < idx + 13 + from_bytes_big (take 8 (drop (idx + 5) full))
        then Inl InvalidEmbeddedLength
      else Inr (take (from_bytes_big (take 8 (drop (idx + 5) full))) (drop (idx + 13) full)))"
  by (simp add: unpack_stego_def LENGTH_LEN_def slice_def Let_def not_less add.assoc)

lemma unpack_stego_frame:
  assumes r: "rfind (C @ MARKER @ ln @ P) MARKER = Some (length C)"
    and ln: "length ln = 8" "from_bytes_big ln = length P"
  shows "unpack_stego (C @ MARKER @ ln @ P) = Inr P"
  using ln by (simp add: unpack_stego_at [OF r])

lemma unpack_stego_length:
  assumes r: "rfind full MARKER = Some idx" and u: "unpack_stego full = Inr res"
  shows "idx + 13 + length res \<le> length full"
proof -
  let ?L = "from_bytes_big (take 8 (drop (idx + 5) full))"
  from u have a: "\<not> length full < idx + 13 + ?L" and b: "res = take ?L (drop (idx + 13) full)"
    by (auto simp: unpack_stego_at [OF r] split: if_splits)
  from a have "length (take ?L (drop (idx + 13) full)) = ?L" by simp
  with a b show ?thesis by simp
qed

lemma unpack_stego_not_frame:
  assumes r: "rfind (C @ MARKER @ ln @ P) MARKER = Some idx" and idx: "length C < idx"
    and ln: "length ln = 8"
  shows "unpack_stego (C @ MARKER @ ln @ P) \<noteq> Inr P"
proof
  assume u: "unpack_stego (C @ MARKER @ ln @ P) = Inr P"
  from unpack_stego_length [OF r u] have "idx + 13 + length P \<le> length (C @ MARKER @ ln @ P)" .
  with ln idx show False by simp
qed

subsection \<open>EOF mode: the claims\<close>

lemma pack_stego_ok:
  "length P < 2 ^ 64 \<Longrightarrow> pack_stego C P = Inr (C @ MARKER @ be_digits 8 (length P) @ P)"
  by (simp add: pack_stego_def to_bytes_big_def LENGTH_LEN_def)

lemma from_be_digits_8: "n < 2 ^ 64 \<Longrightarrow> from_bytes_big (be_digits 8 n) = n"
  using from_be_digits [of n 8] by simp

text \<open>
  Claim C7. \<open>unpack_stego\<close> works from the rightmost occurrence \<open>idx\<close> of the
  marker. With no occurrence, or with fewer than 8 bytes after the marker, it raises
  "Marker not found or truncated". Otherwise, with \<open>L\<close> the big-endian value of the 8
  bytes after the marker, it raises "Invalid embedded length" exactly when
  \<open>idx + 5 + 8 + L\<close> exceeds the length of the container, and else returns the \<open>L\<close>
  bytes that follow the length field.
\<close>

theorem unpack_stego_behaviour:
  "((\<forall>j. \<not> occurs_at MARKER full j) \<longrightarrow> unpack_stego full = Inl MarkerNotFoundOrTruncated) \<and>
   (occurs_at MARKER full idx \<and> (\<forall>j>idx. \<not> occurs_at MARKER full j) \<longrightarrow>
      (length full < idx + 5 + 8 \<longrightarrow> unpack_stego full = Inl MarkerNotFoundOrTruncated) \<and>
      (idx + 5 + 8 \<le> length full \<longrightarrow>
         (let L = from_bytes_big (take 8 (drop (idx + 5) full)) in
            (length full < idx + 5 + 8 + L \<longrightarrow> unpack_stego full = Inl InvalidEmbeddedLength) \<and>
            (idx + 5 + 8 + L \<le> length full \<longrightarrow>
               unpack_stego full = Inr (take L (drop (idx + 5 + 8) full)) \<and>
               length (take L (drop (idx + 5 + 8) full)) = L))))"
proof (intro conjI impI)
  assume "\<forall>j. \<not> occurs_at MARKER full j"
  then have "rfind full MARKER = None" by (simp add: rfind_None_iff)
  then show "unpack_stego full = Inl MarkerNotFoundOrTruncated"
    by (simp add: unpack_stego_def)
next
  assume "occurs_at MARKER full idx \<and> (\<forall>j>idx. \<not> occurs_at MARKER full j)"
  then have r: "rfind full MARKER = Some idx" by (simp add: rfind_Some_iff)
  assume "length full < idx + 5 + 8"
  then show "unpack_stego full = Inl MarkerNotFoundOrTruncated"
    by (simp add: unpack_stego_at [OF r])
next
  assume "occurs_at MARKER full idx \<and> (\<forall>j>idx. \<not> occurs_at MARKER full j)"
  then have r: "rfind full MARKER = Some idx" by (simp add: rfind_Some_iff)
  assume "idx + 5 + 8 \<le> length full"
  then show "let L = from_bytes_big (take 8 (drop (idx + 5) full)) in
            (length full < idx + 5 + 8 + L \<longrightarrow> unpack_stego full = Inl InvalidEmbeddedLength) \<and>
            (idx + 5 + 8 + L \<le> length full \<longrightarrow>
               unpack_stego full = Inr (take L (drop (idx + 5 + 8) full)) \<and>
               length (take L (drop (idx + 5 + 8) full)) = L)"
    by (simp add: unpack_stego_at [OF r] Let_def add_ac)
qed

text \<open>
  Claim C10. For a payload whose length fits the 8-byte field, \<open>pack_stego\<close>
  succeeds; when the last occurrence of the marker in the container is at offset
  \<open>len(C)\<close>, \<open>unpack_stego\<close> returns the payload; and that is the case whenever the
  marker occurs nowhere in what follows the appended marker (the length field and the
  payload).
\<close>

theorem pack_unpack_last_marker:
  assumes "length P < 2 ^ 64"
  shows "\<exists>full. pack_stego C P = Inr full \<and>
           (rfind full MARKER = Some (length C) \<longrightarrow> unpack_stego full = Inr P) \<and>
           ((\<forall>j. \<not> occurs_at MARKER (drop (length C + length MARKER) full) j) \<longrightarrow>
              rfind full MARKER = Some (length C))"
proof -
  let ?ln = "be_digits 8 (length P)"
  let ?full = "C @ MARKER @ ?ln @ P"
  have p: "pack_stego C P = Inr ?full" by (rule pack_stego_ok [OF assms])
  have a: "unpack_stego ?full = Inr P" if "rfind ?full MARKER = Some (length C)"
    by (rule unpack_stego_frame [OF that]) (simp_all add: from_be_digits_8 [OF assms])
  have d: "drop (length C + length MARKER) ?full = ?ln @ P" by simp
  have b: "rfind ?full MARKER = Some (length C)"
    if "\<forall>j. \<not> occurs_at MARKER (drop (length C + length MARKER) ?full) j"
  proof -
    from that [unfolded d] have "\<forall>j. \<not> occurs_at MARKER (?ln @ P) j" .
    then show ?thesis using rfind_after_marker [of C "?ln @ P"] by blast
  qed
  from p a b show ?thesis by blast
qed

text \<open>
  Claim C2, amended. For a payload whose length fits the 8-byte field,
  \<open>unpack_stego(pack_stego(C, P))\<close> is \<open>P\<close> if and only if the marker does not occur
  in the length field followed by the payload. A marker inside the carrier does no
  harm.
\<close>

theorem pack_unpack_iff:
  assumes "length P < 2 ^ 64"
  shows "\<exists>full. pack_stego C P = Inr full \<and>
           (unpack_stego full = Inr P \<longleftrightarrow>
              (\<forall>j. \<not> occurs_at MARKER (be_digits 8 (length P) @ P) j))"
proof -
  let ?ln = "be_digits 8 (length P)"
  let ?full = "C @ MARKER @ ?ln @ P"
  have p: "pack_stego C P = Inr ?full" by (rule pack_stego_ok [OF assms])
  have "unpack_stego ?full = Inr P \<longleftrightarrow> rfind ?full MARKER = Some (length C)"
  proof
    assume u: "unpack_stego ?full = Inr P"
    from rfind_frame_exists [of C "?ln @ P"] obtain idx
      where r: "rfind ?full MARKER = Some idx" and c: "idx = length C \<or> length C + 5 \<le> idx"
      by blast
    show "rfind ?full MARKER = Some (length C)"
    proof (cases "idx = length C")
      case True
      with r show ?thesis by simp
    next
      case False
      with c have "length C < idx" by simp
      from unpack_stego_not_frame [OF r this] u show ?thesis by simp
    qed
  next
    assume "rfind ?full MARKER = Some (length C)"
    then show "unpack_stego ?full = Inr P"
      by (rule unpack_stego_frame) (simp_all add: from_be_digits_8 [OF assms])
  qed
  then have "unpack_stego ?full = Inr P \<longleftrightarrow> (\<forall>j. \<not> occurs_at MARKER (?ln @ P) j)"
    by (simp only: rfind_after_marker)
  with p show ?thesis by blast
qed

text \<open>
  Claim C2 as stated fails: with the empty carrier and the payload \<open>b"STEG0"\<close>, the
  rightmost marker is the payload itself, no 8 bytes follow it, and \<open>unpack_stego\<close>
  raises.
\<close>

theorem pack_unpack_counterexample:
  "pack_stego [] [0x53, 0x54, 0x45, 0x47, 0x30]
     = Inr ([0x53, 0x54, 0x45, 0x47, 0x30] @ [0, 0, 0, 0, 0, 0, 0, 5] @ [0x53, 0x54, 0x45, 0x47, 0x30]) \<and>
   unpack_stego ([0x53, 0x54, 0x45, 0x47, 0x30] @ [0, 0, 0, 0, 0, 0, 0, 5] @ [0x53, 0x54, 0x45, 0x47, 0x30])
     = Inl MarkerNotFoundOrTruncated"
  by (simp add: pack_stego_def to_bytes_big_def unpack_stego_def rfind_def occurs_at_def
      MARKER_def LENGTH_LEN_def be_digits_numeral)

lemma rfind_hello_world:
  "rfind ([0x68, 0x65, 0x6c, 0x6c, 0x6f] @ MARKER @ [0, 0, 0, 0, 0, 0, 0, 5] @ [0x77, 0x6f, 0x72, 0x6c, 0x64])
     MARKER = Some 5"
  by (simp add: rfind_def occurs_at_def MARKER_def)

text \<open>
  Claim C7 at four containers: no marker; a marker followed by 3 bytes; a declared
  length of 5 with 2 bytes left; and \<open>b"hello"\<close> packed with \<open>b"world"\<close>.
\<close>

theorem unpack_stego_behaviour_witness:
  "unpack_stego [0x68, 0x65, 0x6c, 0x6c, 0x6f] = Inl MarkerNotFoundOrTruncated \<and>
   unpack_stego (MARKER @ [0, 0, 0]) = Inl MarkerNotFoundOrTruncated \<and>
   unpack_stego (MARKER @ [0, 0, 0, 0, 0, 0, 0, 5] @ [1, 2]) = Inl InvalidEmbeddedLength \<and>
   unpack_stego ([0x68, 0x65, 0x6c, 0x6c, 0x6f] @ MARKER @ [0, 0, 0, 0, 0, 0, 0, 5]
       @ [0x77, 0x6f, 0x72, 0x6c, 0x64]) = Inr [0x77, 0x6f, 0x72, 0x6c, 0x64]"
proof (intro conjI)
  let ?a = "[0x68, 0x65, 0x6c, 0x6c, 0x6f] :: bytes"
  have "rfind ?a MARKER = None"
    by (simp add: rfind_def occurs_at_def MARKER_def)
  then have "\<forall>j. \<not> occurs_at MARKER ?a j" by (rule iffD1 [OF rfind_None_iff])
  with unpack_stego_behaviour [of ?a 0]
  show "unpack_stego ?a = Inl MarkerNotFoundOrTruncated" by blast
next
  let ?b = "MARKER @ [0, 0, 0]"
  have "rfind ?b MARKER = Some 0"
    by (simp add: rfind_def occurs_at_def MARKER_def)
  then have "occurs_at MARKER ?b 0 \<and> (\<forall>j>0. \<not> occurs_at MARKER ?b j)"
    by (rule iffD1 [OF rfind_Some_iff])
  moreover have "length ?b < 0 + 5 + 8" by simp
  ultimately show "unpack_stego ?b = Inl MarkerNotFoundOrTruncated"
    using unpack_stego_behaviour [of ?b 0] by blast
next
  let ?c = "MARKER @ [0, 0, 0, 0, 0, 0, 0, 5] @ [1, 2]"
  have "rfind ?c MARKER = Some 0"
    by (simp add: rfind_def occurs_at_def MARKER_def)
  then have o: "occurs_at MARKER ?c 0 \<and> (\<forall>j>0. \<not> occurs_at MARKER ?c j)"
    by (rule iffD1 [OF rfind_Some_iff])
  have l: "0 + 5 + 8 \<le> length ?c" by simp
  have L: "from_bytes_big (take 8 (drop (0 + 5) ?c)) = 5"
    by (simp add: from_bytes_big_def)
  have "length ?c < 0 + 5 + 8 + 5" by simp
  with o l L show "unpack_stego ?c = Inl InvalidEmbeddedLength"
    using unpack_stego_behaviour [of ?c 0] by (simp add: Let_def)
next
  let ?w = "[0x77, 0x6f, 0x72, 0x6c, 0x64] :: bytes"
  let ?d = "[0x68, 0x65, 0x6c, 0x6c, 0x6f] @ MARKER @ [0, 0, 0, 0, 0, 0, 0, 5] @ ?w"
  have o: "occurs_at MARKER ?d 5 \<and> (\<forall>j>5. \<not> occurs_at MARKER ?d j)"
    using rfind_hello_world by (rule iffD1 [OF rfind_Some_iff])
  have l: "5 + 5 + 8 \<le> length ?d" by simp
  have L: "from_bytes_big (take 8 (drop (5 + 5) ?d)) = 5"
    by (simp add: from_bytes_big_def)
  have t: "take 5 (drop (5 + 5 + 8) ?d) = ?w" by simp
  have "5 + 5 + 8 + 5 \<le> length ?d" by simp
  with o l L t show "unpack_stego ?d = Inr ?w"
    using unpack_stego_behaviour [of ?d 5] by (simp add: Let_def)
qed

text \<open>
  Claim C10 at the spec's example: \<open>pack_stego(b"hello", b"world")\<close>, then
  \<open>unpack_stego\<close>, returns \<open>b"world"\<close>.
\<close>

theorem pack_unpack_last_marker_witness:
  "length [0x77, 0x6f, 0x72, 0x6c, 0x64 :: byte] < 2 ^ 64 \<and>
   pack_stego [0x68, 0x65, 0x6c, 0x6c, 0x6f] [0x77, 0x6f, 0x72, 0x6c, 0x64]
     = Inr ([0x68, 0x65, 0x6c, 0x6c, 0x6f] @ MARKER @ [0, 0, 0, 0, 0, 0, 0, 5] @ [0x77, 0x6f, 0x72, 0x6c, 0x64]) \<and>
   unpack_stego ([0x68, 0x65, 0x6c, 0x6c, 0x6f] @ MARKER @ [0, 0, 0, 0, 0, 0, 0, 5] @ [0x77, 0x6f, 0x72, 0x6c, 0x64])
     = Inr [0x77, 0x6f, 0x72, 0x6c, 0x64]"
proof -
  let ?h = "[0x68, 0x65, 0x6c, 0x6c, 0x6f] :: bytes"
  let ?w = "[0x77, 0x6f, 0x72, 0x6c, 0x64] :: bytes"
  let ?full = "?h @ MARKER @ [0, 0, 0, 0, 0, 0, 0, 5] @ ?w"
  have len: "length ?w < 2 ^ 64" by simp
  have p: "pack_stego ?h ?w = Inr ?full"
    by (simp add: pack_stego_def to_bytes_big_def LENGTH_LEN_def be_digits_numeral)
  from pack_unpack_last_marker [OF len, of ?h] obtain full
    where f: "pack_stego ?h ?w = Inr full"
      and u: "rfind full MARKER = Some (length ?h) \<longrightarrow> unpack_stego full = Inr ?w"
    by blast
  from f p have "full = ?full" by simp
  with u rfind_hello_world have "unpack_stego ?full = Inr ?w" by simp
  with len p show ?thesis by blast
qed

text \<open>
  Claim C2, amended, at a carrier that is itself the marker: the payload comes back.
\<close>

theorem pack_unpack_iff_witness:
  "length [0xAA :: byte] < 2 ^ 64 \<and>
   pack_stego MARKER [0xAA] = Inr (MARKER @ MARKER @ [0, 0, 0, 0, 0, 0, 0, 1] @ [0xAA]) \<and>
   unpack_stego (MARKER @ MARKER @ [0, 0, 0, 0, 0, 0, 0, 1] @ [0xAA]) = Inr [0xAA]"
proof -
  let ?P = "[0xAA] :: bytes"
  let ?full = "MARKER @ MARKER @ [0, 0, 0, 0, 0, 0, 0, 1] @ ?P"
  have len: "length ?P < 2 ^ 64" by simp
  have p: "pack_stego MARKER ?P = Inr ?full"
    by (simp add: pack_stego_def to_bytes_big_def LENGTH_LEN_def be_digits_numeral)
  have "rfind (be_digits 8 (length ?P) @ ?P) MARKER = None"
    by (simp add: rfind_def occurs_at_def MARKER_def be_digits_numeral)
  then have n: "\<forall>j. \<not> occurs_at MARKER (be_digits 8 (length ?P) @ ?P) j"
    by (rule iffD1 [OF rfind_None_iff])
  from pack_unpack_iff [OF len, of MARKER] obtain full
    where f: "pack_stego MARKER ?P = Inr full"
      and u: "unpack_stego full = Inr ?P \<longleftrightarrow>
                (\<forall>j. \<not> occurs_at MARKER (be_digits 8 (length ?P) @ ?P) j)"
    by blast
  from f p have "full = ?full" by simp
  with u n have "unpack_stego ?full = Inr ?P" by blast
  with len p show ?thesis by blast
qed

subsection \<open>Bit strings\<close>

lemma format_08b_digits:
  "format_08b b = map digit_char (map (\<lambda>k. bit b (7 - k)) [0..<8])"
  by (simp add: format_08b_def digit_char_def)

lemma length_format_08b [simp]: "length (format_08b b) = 8"
  by (simp add: format_08b_def)

lemma length_to_bitstring [simp]: "length (to_bitstring bs) = 8 * length bs"
  by (induction bs) (simp_all add: to_bitstring_def)

lemma to_bitstring_Nil [simp]: "to_bitstring [] = []"
  by (simp add: to_bitstring_def)

lemma to_bitstring_Cons: "to_bitstring (b # bs) = format_08b b @ to_bitstring bs"
  by (simp add: to_bitstring_def)

lemma to_bitstring_append: "to_bitstring (xs @ ys) = to_bitstring xs @ to_bitstring ys"
  by (simp add: to_bitstring_def)

lemma digit_char_inj [simp]: "digit_char a = digit_char b \<longleftrightarrow> a = b"
  by (auto simp: digit_char_def)

lemma int_base2_digits:
  "bs \<noteq> [] \<Longrightarrow>
   int_base2 (map digit_char bs) = Some (foldl (\<lambda>acc b. 2 * acc + of_bool b) 0 bs)"
proof -
  assume ne: "bs \<noteq> []"
  have v: "foldl (\<lambda>acc c. 2 * acc + (if c = CHR ''1'' then 1 else 0)) a (map digit_char bs)
             = foldl (\<lambda>acc b. 2 * acc + of_bool b) (a::nat) bs" for a
    by (induction bs arbitrary: a) (simp_all add: digit_char_def)
  have d: "\<forall>c \<in> set (map digit_char bs). c = CHR ''0'' \<or> c = CHR ''1''"
    by (auto simp: digit_char_def)
  from ne d v show ?thesis
    unfolding int_base2_def by (simp del: set_map)
qed

lemma of_nat_foldl_bits:
  "(of_nat (foldl (\<lambda>acc b. 2 * acc + of_bool b) a bs) :: byte)
     = foldl (\<lambda>acc b. 2 * acc + of_bool b) (of_nat a) bs"
  by (induction bs arbitrary: a) simp_all

lemma foldl_bits_horner:
  "foldl (\<lambda>acc b. 2 * acc + of_bool b) 0 bs = (horner_sum of_bool 2 (rev bs) :: byte)"
  by (induction bs rule: rev_induct) simp_all

lemma byte_of_digits:
  "bs \<noteq> [] \<Longrightarrow> int_base2 (map digit_char bs) = Some v \<Longrightarrow>
     (of_nat v :: byte) = horner_sum of_bool 2 (rev bs)"
proof -
  assume ne: "bs \<noteq> []" and "int_base2 (map digit_char bs) = Some v"
  then have v: "v = foldl (\<lambda>acc b. 2 * acc + of_bool b) 0 bs"
    by (simp add: int_base2_digits)
  show ?thesis
    unfolding v using of_nat_foldl_bits [of 0 bs] by (simp add: foldl_bits_horner)
qed

lemma rev_bits_of_byte: "rev (map (\<lambda>k. bit b (7 - k)) [0..<8]) = map (bit (b::byte)) [0..<8]"
  by (simp add: eval_nat_numeral)

lemma int_base2_format_08b:
  "\<exists>v. int_base2 (format_08b b) = Some v \<and> (of_nat v :: byte) = b"
proof -
  let ?bs = "map (\<lambda>k. bit b (7 - k)) [0..<8]"
  have ne: "?bs \<noteq> []" by simp
  from int_base2_digits [OF ne] obtain v where v: "int_base2 (map digit_char ?bs) = Some v"
    by blast
  from byte_of_digits [OF ne v] have "(of_nat v :: byte) = horner_sum of_bool 2 (map (bit b) [0..<8])"
    by (simp only: rev_bits_of_byte)
  also have "\<dots> = take_bit 8 b" by (rule horner_sum_bit_eq_take_bit)
  also have "\<dots> = b" by (rule take_bit_word_eq_self) simp
  finally show ?thesis using v by (simp add: format_08b_digits)
qed

lemma from_bitstring_loop_to_bitstring:
  "from_bitstring_loop (to_bitstring bs) = Inr bs"
proof (induction bs)
  case Nil
  then show ?case by simp
next
  case (Cons b bs)
  from int_base2_format_08b [of b] obtain v
    where v: "int_base2 (format_08b b) = Some v" "of_nat v = b" by blast
  have ne: "to_bitstring (b # bs) \<noteq> []"
    by (simp add: to_bitstring_Cons format_08b_def)
  have t: "take 8 (to_bitstring (b # bs)) = format_08b b"
    and d: "drop 8 (to_bitstring (b # bs)) = to_bitstring bs"
    by (simp_all add: to_bitstring_Cons)
  show ?case
    by (subst from_bitstring_loop.simps) (simp add: ne t d v Cons.IH del: from_bitstring_loop.simps)
qed

lemma from_to_bitstring: "from_bitstring (to_bitstring bs) = Inr bs"
  by (simp add: from_bitstring_def from_bitstring_loop_to_bitstring del: from_bitstring_loop.simps)

lemma to_bitstring_inj: "to_bitstring xs = to_bitstring ys \<Longrightarrow> xs = ys"
proof -
  assume "to_bitstring xs = to_bitstring ys"
  then have "from_bitstring (to_bitstring xs) = from_bitstring (to_bitstring ys)" by simp
  then show ?thesis by (simp only: from_to_bitstring sum.inject)
qed

lemma bits_of_digit_byte:
  assumes "length cs = 8"
  shows "map (\<lambda>k. bit (horner_sum of_bool 2 (rev cs) :: byte) (7 - k)) [0..<8] = cs"
proof (rule nth_equalityI)
  show "length (map (\<lambda>k. bit (horner_sum of_bool 2 (rev cs) :: byte) (7 - k)) [0..<8]) = length cs"
    using assms by simp
next
  fix i assume "i < length (map (\<lambda>k. bit (horner_sum of_bool 2 (rev cs) :: byte) (7 - k)) [0..<8])"
  then have i: "i < 8" by simp
  then have "rev cs ! (7 - i) = cs ! i"
    using assms by (simp add: rev_nth)
  with i assms
  show "map (\<lambda>k. bit (horner_sum of_bool 2 (rev cs) :: byte) (7 - k)) [0..<8] ! i = cs ! i"
    by (auto simp: bit_horner_sum_bit_word_iff)
qed

lemma from_bitstring_loop_digits:
  "length bs = 8 * n \<Longrightarrow>
   \<exists>ws. from_bitstring_loop (map digit_char bs) = Inr ws \<and> length ws = n \<and>
        to_bitstring ws = map digit_char bs"
proof (induction n arbitrary: bs)
  case 0
  then show ?case by simp
next
  case (Suc n)
  let ?cs = "take 8 bs" and ?rest = "drop 8 bs"
  from Suc.prems have lc: "length ?cs = 8" and lr: "length ?rest = 8 * n" and ne: "bs \<noteq> []"
    by auto
  from lc have cne: "?cs \<noteq> []" by auto
  from int_base2_digits [OF cne] obtain v where v: "int_base2 (map digit_char ?cs) = Some v"
    by blast
  let ?w = "of_nat v :: byte"
  from byte_of_digits [OF cne v] have w: "?w = horner_sum of_bool 2 (rev ?cs)" .
  have f: "format_08b ?w = map digit_char ?cs"
    unfolding format_08b_digits w by (simp only: bits_of_digit_byte [OF lc])
  from Suc.IH [OF lr] obtain ws
    where ws: "from_bitstring_loop (map digit_char ?rest) = Inr ws" "length ws = n"
      "to_bitstring ws = map digit_char ?rest"
    by blast
  have "from_bitstring_loop (map digit_char bs) = Inr (?w # ws)"
    by (subst from_bitstring_loop.simps)
      (simp add: ne v ws take_map drop_map del: from_bitstring_loop.simps)
  moreover have "map digit_char ?cs @ map digit_char ?rest = map digit_char bs"
    by (simp only: map_append [symmetric] append_take_drop_id)
  then have "to_bitstring (?w # ws) = map digit_char bs"
    by (simp only: to_bitstring_Cons f ws)
  ultimately show ?case using ws by simp
qed

lemma from_bitstring_digits:
  "length bs = 8 * n \<Longrightarrow>
   \<exists>ws. from_bitstring (map digit_char bs) = Inr ws \<and> length ws = n \<and>
        to_bitstring ws = map digit_char bs"
  using from_bitstring_loop_digits [of bs n]
  by (simp add: from_bitstring_def del: from_bitstring_loop.simps)

lemma nth_format_08b: "i < 8 \<Longrightarrow> format_08b b ! i = digit_char (bit b (7 - i))"
  by (simp add: format_08b_digits del: upt_Suc)

lemma nth_to_bitstring:
  "i < 8 * length bs \<Longrightarrow> to_bitstring bs ! i = digit_char (frame_bit bs i)"
proof (induction bs arbitrary: i)
  case Nil
  then show ?case by simp
next
  case (Cons b bs)
  show ?case
  proof (cases "i < 8")
    case True
    then show ?thesis
      by (simp add: to_bitstring_Cons nth_append nth_format_08b frame_bit_def)
  next
    case False
    then have i: "i = 8 + (i - 8)" by simp
    from False Cons.prems have "i - 8 < 8 * length bs" by simp
    from Cons.IH [OF this] have "to_bitstring bs ! (i - 8) = digit_char (frame_bit bs (i - 8))" .
    moreover have "i div 8 = Suc ((i - 8) div 8)" "i mod 8 = (i - 8) mod 8"
      using False by (simp_all add: le_div_geq le_mod_geq)
    then have "frame_bit (b # bs) i = frame_bit bs (i - 8)"
      by (simp add: frame_bit_def)
    ultimately show ?thesis
      using False by (simp add: to_bitstring_Cons nth_append)
  qed
qed

lemma to_bitstring_digits:
  "to_bitstring bs = map digit_char (map (frame_bit bs) [0..<8 * length bs])"
  by (rule nth_equalityI) (simp_all add: nth_to_bitstring)

lemma int_of_digit_char [simp]: "int_of_digit (digit_char v) = Some (of_bool v)"
  by (simp add: int_of_digit_def digit_char_def)

lemma bit0_embed [simp]: "bit (((x::byte) AND 0xFE) OR of_bool v) 0 = v"
  by (cases v) (simp_all add: bit_0 even_or_iff even_and_iff)

lemma bitk_embed: "0 < k \<Longrightarrow> bit (((x::byte) AND 0xFE) OR of_bool v) k = bit x k"
proof -
  assume k: "0 < k"
  have fe: "(0xFE :: byte) = - 2" by simp
  have "bit (0xFE :: byte) k \<longleftrightarrow> k < 8"
    unfolding fe using k by (simp add: bit_minus_2_iff)
  moreover have "\<not> bit (of_bool v :: byte) k"
    using k by (cases v) (simp_all add: bit_1_iff)
  moreover have "bit x k \<Longrightarrow> k < 8"
    by (auto dest: bit_imp_le_length)
  ultimately show ?thesis by (auto simp: bit_or_iff bit_and_iff)
qed

subsection \<open>The embedding loop and the reading of bits\<close>

lemma perm_range:
  assumes "mset xs = mset [0..<n]"
  shows "length xs = n" and "distinct xs" and "set xs = {0..<n}"
proof -
  from assms show "length xs = n" using mset_eq_length by fastforce
  from assms show "distinct xs" using mset_eq_imp_distinct_iff distinct_upt by blast
  from assms show "set xs = {0..<n}" using mset_eq_setD by fastforce
qed

lemma embed_loop_ok:
  assumes "distinct indices" and "\<forall>i<length indices. indices ! i < length flat"
    and "k + length vs \<le> length indices"
  shows "\<exists>new_data. embed_loop indices (enumerate k (map digit_char vs)) flat = Inr new_data \<and>
           length new_data = length flat \<and>
           (\<forall>j<length vs. new_data ! (indices ! (k + j))
                = (flat ! (indices ! (k + j)) AND 0xFE) OR of_bool (vs ! j)) \<and>
           (\<forall>p. p \<notin> (!) indices ` {k..<k + length vs} \<longrightarrow> new_data ! p = flat ! p)"
  using assms
proof (induction vs arbitrary: k flat)
  case Nil
  then show ?case by simp
next
  case (Cons v vs)
  let ?idx = "indices ! k"
  let ?flat1 = "flat[?idx := (flat ! ?idx AND 0xFE) OR of_bool v]"
  from Cons.prems have k: "k < length indices" and idx: "?idx < length flat" by auto
  have step: "embed_loop indices (enumerate k (map digit_char (v # vs))) flat
                = embed_loop indices (enumerate (Suc k) (map digit_char vs)) ?flat1"
    using k idx by (simp add: Let_def)
  from Cons.prems have b: "\<forall>i<length indices. indices ! i < length ?flat1"
    and l: "Suc k + length vs \<le> length indices" by auto
  from Cons.IH [OF Cons.prems(1) b l] obtain new_data
    where r: "embed_loop indices (enumerate (Suc k) (map digit_char vs)) ?flat1 = Inr new_data"
      and len: "length new_data = length ?flat1"
      and w: "\<forall>j<length vs. new_data ! (indices ! (Suc k + j))
                = (?flat1 ! (indices ! (Suc k + j)) AND 0xFE) OR of_bool (vs ! j)"
      and u: "\<forall>p. p \<notin> (!) indices ` {Suc k..<Suc k + length vs} \<longrightarrow> new_data ! p = ?flat1 ! p"
    by blast
  have other: "indices ! i \<noteq> ?idx" if "Suc k \<le> i" "i < length indices" for i
    using that k Cons.prems(1) by (simp add: nth_eq_iff_index_eq)
  have first: "?idx \<notin> (!) indices ` {Suc k..<Suc k + length vs}"
    using other l by fastforce
  have written: "new_data ! (indices ! (k + j))
                   = (flat ! (indices ! (k + j)) AND 0xFE) OR of_bool ((v # vs) ! j)"
    if j: "j < length (v # vs)" for j
  proof (cases j)
    case 0
    with u first idx show ?thesis by simp
  next
    case (Suc m)
    with j have m: "m < length vs" by simp
    with l have "indices ! (Suc k + m) \<noteq> ?idx" by (intro other) simp_all
    with w m Suc show ?thesis by simp
  qed
  have untouched: "new_data ! p = flat ! p" if p: "p \<notin> (!) indices ` {k..<k + length (v # vs)}" for p
  proof -
    from p have "p \<noteq> ?idx" by force
    moreover from p have "p \<notin> (!) indices ` {Suc k..<Suc k + length vs}" by force
    ultimately show ?thesis using u by simp
  qed
  from step r len written untouched show ?case by simp
qed

lemma and_one_bit0: "((x::byte) AND 1 = 1) = bit x 0"
  by (simp add: and_one_eq bit_0 odd_iff_mod_2_eq_one)

lemma read_bits_ok:
  "\<forall>i\<in>set js. i < length indices \<and> indices ! i < length data \<Longrightarrow>
   read_bits data indices js = Inr (map (\<lambda>i. digit_char (bit (data ! (indices ! i)) 0)) js)"
  by (induction js) (simp_all add: read_bit_def Let_def and_one_bit0 digit_char_def)

lemma read_bits_lsb_string:
  assumes "n \<le> length indices" and "\<forall>i<length indices. indices ! i < length data"
  shows "read_bits data indices [0..<n] = Inr (lsb_string data indices n)"
  unfolding lsb_string_def using assms by (intro read_bits_ok) auto

subsection \<open>Embedding and extraction on the decoded pixels\<close>

lemma embed_indices_perm:
  "shuffle_permutes E n \<Longrightarrow> mset (embed_indices E n pwd) = mset [0..<n]"
  by (simp add: embed_indices_def shuffle_permutes_def Let_def split: option.split)

lemma extract_indices_perm:
  "shuffle_permutes E n \<Longrightarrow> mset (extract_indices E n pwd) = mset [0..<n]"
  by (simp add: extract_indices_def shuffle_permutes_def Let_def split: option.split)

lemma perm_nth_less:
  assumes "mset xs = mset [0..<n]"
  shows "\<forall>i<length xs. xs ! i < n"
proof (intro allI impI)
  fix i assume "i < length xs"
  then have "xs ! i \<in> set xs" by simp
  with perm_range(3) [OF assms] show "xs ! i < n" by simp
qed

lemma embed_lsb_ok:
  assumes dec: "image_open_rgb E I = Some img"
    and perm: "mset (embed_indices E (length (pixels img)) pwd) = mset [0..<length (pixels img)]"
    and cap: "8 * length F \<le> length (pixels img)"
  shows "\<exists>new_data.
           embed_lsb E I F pwd = Inr (save_png E (img\<lparr>pixels := new_data\<rparr>)) \<and>
           length new_data = length (pixels img) \<and>
           (\<forall>i<8 * length F.
              new_data ! (embed_indices E (length (pixels img)) pwd ! i)
                = (pixels img ! (embed_indices E (length (pixels img)) pwd ! i) AND 0xFE)
                    OR of_bool (frame_bit F i)) \<and>
           (\<forall>p. p \<notin> (!) (embed_indices E (length (pixels img)) pwd) ` {0..<8 * length F} \<longrightarrow>
              new_data ! p = pixels img ! p)"
proof -
  let ?flat = "pixels img"
  let ?ix = "embed_indices E (length ?flat) pwd"
  let ?vs = "map (frame_bit F) [0..<8 * length F]"
  from perm_range [OF perm] have len: "length ?ix = length ?flat" and d: "distinct ?ix" by simp_all
  from perm_nth_less [OF perm] have b: "\<forall>i<length ?ix. ?ix ! i < length ?flat" .
  from cap len have l: "0 + length ?vs \<le> length ?ix" by simp
  from embed_loop_ok [OF d b l] obtain new_data
    where r: "embed_loop ?ix (enumerate 0 (map digit_char ?vs)) ?flat = Inr new_data"
      and n: "length new_data = length ?flat"
      and w: "\<forall>j<length ?vs. new_data ! (?ix ! (0 + j))
                = (?flat ! (?ix ! (0 + j)) AND 0xFE) OR of_bool (?vs ! j)"
      and u: "\<forall>p. p \<notin> (!) ?ix ` {0..<0 + length ?vs} \<longrightarrow> new_data ! p = ?flat ! p"
    by blast
  from r have "embed_loop ?ix (enumerate 0 (to_bitstring F)) ?flat = Inr new_data"
    by (simp only: to_bitstring_digits)
  with dec cap have "embed_lsb E I F pwd = Inr (save_png E (img\<lparr>pixels := new_data\<rparr>))"
    by (simp add: embed_lsb_def Let_def)
  moreover from w have "\<forall>i<8 * length F. new_data ! (?ix ! i)
                = (?flat ! (?ix ! i) AND 0xFE) OR of_bool (frame_bit F i)"
    by simp
  moreover from u have "\<forall>p. p \<notin> (!) ?ix ` {0..<8 * length F} \<longrightarrow> new_data ! p = ?flat ! p"
    by simp
  ultimately show ?thesis using n by blast
qed

lemma take_to_bitstring: "take (8 * k) (to_bitstring bs) = to_bitstring (take k bs)"
proof (induction bs arbitrary: k)
  case Nil
  then show ?case by simp
next
  case (Cons b bs)
  show ?case
  proof (cases k)
    case 0
    then show ?thesis by simp
  next
    case (Suc m)
    then show ?thesis by (simp add: to_bitstring_Cons Cons.IH)
  qed
qed

lemma lsb_string_take: "m \<le> n \<Longrightarrow> take m (lsb_string data indices n) = lsb_string data indices m"
  by (simp add: lsb_string_def take_map)

lemma extract_lsb_eq:
  assumes dec: "image_open_rgb E stego = Some img"
    and perm: "mset (extract_indices E (length (pixels img)) pwd) = mset [0..<length (pixels img)]"
    and big: "104 \<le> length (pixels img)"
  shows "\<exists>hb. length hb = 13 \<and>
           to_bitstring hb = lsb_string (pixels img) (extract_indices E (length (pixels img)) pwd) 104 \<and>
           extract_lsb E stego pwd =
             (if take 5 hb \<noteq> MARKER then Inl MarkerNotFound
              else if length (pixels img) < (13 + from_bytes_big (drop 5 hb)) * 8
                then Inl LengthExceedsCapacity
              else from_bitstring (lsb_string (pixels img)
                     (extract_indices E (length (pixels img)) pwd)
                     ((13 + from_bytes_big (drop 5 hb)) * 8)))"
proof -
  let ?data = "pixels img"
  let ?ix = "extract_indices E (length ?data) pwd"
  from perm_range [OF perm] have len: "length ?ix = length ?data" by simp
  from perm_nth_less [OF perm] have b: "\<forall>i<length ?ix. ?ix ! i < length ?data" .
  have rd: "read_bits ?data ?ix [0..<n] = Inr (lsb_string ?data ?ix n)" if "n \<le> length ?data" for n
    using that len b by (intro read_bits_lsb_string) simp_all
  have "lsb_string ?data ?ix 104 = map digit_char (map (\<lambda>i. bit (?data ! (?ix ! i)) 0) [0..<104])"
    by (simp add: lsb_string_def)
  moreover have "length (map (\<lambda>i. bit (?data ! (?ix ! i)) 0) [0..<104]) = 8 * 13" by simp
  ultimately obtain hb where hb: "from_bitstring (lsb_string ?data ?ix 104) = Inr hb"
    "length hb = 13" "to_bitstring hb = lsb_string ?data ?ix 104"
    using from_bitstring_digits [of "map (\<lambda>i. bit (?data ! (?ix ! i)) 0) [0..<104]" 13]
    by auto
  have sl: "slice hb 5 13 = drop 5 hb" using hb(2) by (simp add: slice_def)
  have "extract_lsb E stego pwd =
             (if take 5 hb \<noteq> MARKER then Inl MarkerNotFound
              else if length ?data < (13 + from_bytes_big (drop 5 hb)) * 8
                then Inl LengthExceedsCapacity
              else from_bitstring (lsb_string ?data ?ix ((13 + from_bytes_big (drop 5 hb)) * 8)))"
    using dec big len rd [of 104] hb(1) sl
    by (simp add: extract_lsb_def Let_def LENGTH_LEN_def startswith_def rd not_less)
  with hb show ?thesis by blast
qed

lemma lsb_string_embedded:
  assumes w: "\<forall>i<8 * length F. new_data ! (ix ! i) = (flat ! (ix ! i) AND 0xFE) OR of_bool (frame_bit F i)"
  shows "lsb_string new_data ix (8 * length F) = to_bitstring F"
proof -
  have "map (\<lambda>i. digit_char (bit (new_data ! (ix ! i)) 0)) [0..<8 * length F]
          = map (\<lambda>i. digit_char (frame_bit F i)) [0..<8 * length F]"
    using w by (intro map_cong) simp_all
  then show ?thesis
    by (simp add: lsb_string_def to_bitstring_digits)
qed

lemma lsb_round_trip_core:
  assumes dec: "image_open_rgb E I = Some img"
    and perm: "mset (embed_indices E (length (pixels img)) pwd) = mset [0..<length (pixels img)]"
    and cap: "8 * length F \<le> length (pixels img)"
    and frame: "F = MARKER @ be_digits 8 (length payload) @ payload" "length payload < 2 ^ 64"
    and png: "png_lossless E img"
    and same: "extract_indices E (length (pixels img)) pwd'
                 = embed_indices E (length (pixels img)) pwd"
  shows "\<exists>stego. embed_lsb E I F pwd = Inr stego \<and> extract_lsb E stego pwd' = Inr F"
proof -
  let ?N = "length (pixels img)"
  let ?ix = "embed_indices E ?N pwd"
  from embed_lsb_ok [OF dec perm cap] obtain new_data
    where e: "embed_lsb E I F pwd = Inr (save_png E (img\<lparr>pixels := new_data\<rparr>))"
      and n: "length new_data = ?N"
      and w: "\<forall>i<8 * length F. new_data ! (?ix ! i)
                = (pixels img ! (?ix ! i) AND 0xFE) OR of_bool (frame_bit F i)"
    by blast
  let ?img' = "img\<lparr>pixels := new_data\<rparr>"
  let ?stego = "save_png E ?img'"
  from png n have dec': "image_open_rgb E ?stego = Some ?img'"
    by (simp add: png_lossless_def)
  have px: "pixels ?img' = new_data" by simp
  have lenF: "length F = 13 + length payload" by (simp add: frame(1))
  with cap have big: "104 \<le> length (pixels ?img')" by (simp add: n)
  have ix': "extract_indices E (length (pixels ?img')) pwd' = ?ix"
    by (simp add: n same)
  from perm have perm': "mset (extract_indices E (length (pixels ?img')) pwd')
                           = mset [0..<length (pixels ?img')]"
    by (simp add: n same)
  note X = extract_lsb_eq [OF dec' perm' big, unfolded px n same]
  from X obtain hb
    where hb: "length hb = 13" "to_bitstring hb = lsb_string new_data ?ix 104"
      and x: "extract_lsb E ?stego pwd' =
             (if take 5 hb \<noteq> MARKER then Inl MarkerNotFound
              else if ?N < (13 + from_bytes_big (drop 5 hb)) * 8
                then Inl LengthExceedsCapacity
              else from_bitstring (lsb_string new_data ?ix
                     ((13 + from_bytes_big (drop 5 hb)) * 8)))"
    by blast
  have all: "lsb_string new_data ?ix (8 * length F) = to_bitstring F"
    by (rule lsb_string_embedded [OF w])
  have "lsb_string new_data ?ix 104 = take 104 (lsb_string new_data ?ix (8 * length F))"
    using lenF by (simp add: lsb_string_take)
  also have "\<dots> = take (8 * 13) (to_bitstring F)" by (simp add: all)
  also have "\<dots> = to_bitstring (take 13 F)" by (rule take_to_bitstring)
  finally have "to_bitstring hb = to_bitstring (take 13 F)" by (simp only: hb(2))
  then have "hb = take 13 F" by (rule to_bitstring_inj)
  then have h: "hb = MARKER @ be_digits 8 (length payload)" by (simp add: frame(1))
  have m: "take 5 hb = MARKER" and d: "drop 5 hb = be_digits 8 (length payload)"
    by (simp_all add: h)
  have ln: "from_bytes_big (drop 5 hb) = length payload"
    by (simp only: d from_be_digits_8 [OF frame(2)])
  have tot: "(13 + length payload) * 8 = 8 * length F" by (simp add: lenF)
  from x have "extract_lsb E ?stego pwd' = from_bitstring (lsb_string new_data ?ix (8 * length F))"
    using cap by (simp only: m ln tot) simp
  then have "extract_lsb E ?stego pwd' = Inr F"
    by (simp only: all from_to_bitstring)
  with e show ?thesis by blast
qed

subsection \<open>The test environment satisfies the assumptions\<close>

lemma test_env_simps [simp]:
  "image_open_rgb test_env = test_open"
  "save_png test_env = test_save"
  "sha256 test_env = (\<lambda>b. take 32 (b @ replicate 32 0))"
  "str_encode test_env = map (\<lambda>c. of_nat (of_char c))"
  "shuffle test_env = (\<lambda>seed xs. if even seed then rev xs else rotate1 xs)"
  by (simp_all add: test_env_def)

lemma mset_rotate1 [simp]: "mset (rotate1 xs) = mset xs"
  by (cases xs) simp_all

lemma test_shuffle_permutes: "shuffle_permutes test_env n"
  by (simp add: shuffle_permutes_def)

lemma test_png_lossless:
  "width img < 256 \<Longrightarrow> height img < 256 \<Longrightarrow> rgb_shaped img \<Longrightarrow> png_lossless test_env img"
  by (simp add: png_lossless_def test_open_def test_save_def rgb_shaped_def unat_of_nat)

lemma test_open_replicate:
  "w < 256 \<Longrightarrow> h < 256 \<Longrightarrow>
   test_open (of_nat w # of_nat h # replicate (w * h * 3) 0)
     = Some \<lparr>width = w, height = h, pixels = replicate (w * h * 3) 0\<rparr>"
  by (simp add: test_open_def unat_of_nat)

subsection \<open>LSB mode: the claims\<close>

text \<open>
  Claim C1. A carrier that decodes to \<open>W \<times> H\<close> RGB pixels with \<open>W * H * 3 \<ge> len(F) * 8\<close>,
  a frame \<open>F\<close> (marker, 8-byte big-endian length of the envelope, envelope) and any
  password, empty or not: \<open>embed_lsb\<close> succeeds and \<open>extract_lsb\<close> with the same
  password returns \<open>F\<close>.
\<close>

theorem lsb_round_trip:
  assumes dec: "image_open_rgb E I = Some img"
    and shape: "rgb_shaped img"
    and perm: "shuffle_permutes E (length (pixels img))"
    and png: "png_lossless E img"
    and frame: "F = MARKER @ be_digits 8 (length envelope) @ envelope" "length envelope < 2 ^ 64"
    and cap: "length F * 8 \<le> width img * height img * 3"
  shows "\<exists>stego. embed_lsb E I F pwd = Inr stego \<and> extract_lsb E stego pwd = Inr F"
proof -
  from cap shape have c: "8 * length F \<le> length (pixels img)"
    by (simp add: rgb_shaped_def mult.commute)
  have same: "extract_indices E (length (pixels img)) pwd = embed_indices E (length (pixels img)) pwd"
    by (simp add: extract_indices_def embed_indices_def)
  show ?thesis
    by (rule lsb_round_trip_core [OF dec embed_indices_perm [OF perm] c frame png same])
qed

text \<open>
  Claim C1 in the test environment: an 8 by 5 carrier (120 channel bytes), the 15-byte
  frame of the envelope \<open>b"PL"\<close>, the password \<open>"pw"\<close>.
\<close>

theorem lsb_round_trip_witness:
  "\<exists>stego.
     embed_lsb test_env (8 # 5 # replicate 120 0) (MARKER @ [0, 0, 0, 0, 0, 0, 0, 2] @ [0x50, 0x4C]) ''pw''
       = Inr stego \<and>
     extract_lsb test_env stego ''pw'' = Inr (MARKER @ [0, 0, 0, 0, 0, 0, 0, 2] @ [0x50, 0x4C])"
proof -
  let ?img = "\<lparr>width = 8, height = 5, pixels = replicate 120 (0::byte)\<rparr>"
  let ?env = "[0x50, 0x4C] :: bytes"
  have dec: "image_open_rgb test_env (8 # 5 # replicate 120 0) = Some ?img"
    using test_open_replicate [of 8 5] by simp
  have shape: "rgb_shaped ?img" by (simp add: rgb_shaped_def)
  have png: "png_lossless test_env ?img"
    by (rule test_png_lossless) (simp_all add: rgb_shaped_def)
  have frame: "MARKER @ [0, 0, 0, 0, 0, 0, 0, 2] @ ?env = MARKER @ be_digits 8 (length ?env) @ ?env"
    by (simp add: be_digits_numeral)
  have len: "length ?env < 2 ^ 64" by simp
  have cap: "length (MARKER @ [0, 0, 0, 0, 0, 0, 0, 2] @ ?env) * 8 \<le> width ?img * height ?img * 3"
    by simp
  show ?thesis
    by (rule lsb_round_trip [OF dec shape test_shuffle_permutes png frame len cap])
qed

text \<open>
  Claim C9. After a successful \<open>embed_lsb(I, F, pwd)\<close> the stego image decodes to pixels
  of the same size in which, for every \<open>i < len(F) * 8\<close>, the least significant bit of
  the channel byte at \<open>indices[i]\<close> is bit \<open>i\<close> of \<open>F\<close> (most significant bit first
  within each byte); the bits 1 to 7 of every channel byte, and the whole of every
  channel byte at no such index, are those of the carrier's pixels.
\<close>

theorem embed_frame_effect:
  assumes dec: "image_open_rgb E I = Some img"
    and perm: "shuffle_permutes E (length (pixels img))"
    and png: "png_lossless E img"
    and cap: "length F * 8 \<le> length (pixels img)"
  shows "\<exists>stego img'.
           embed_lsb E I F pwd = Inr stego \<and> image_open_rgb E stego = Some img' \<and>
           width img' = width img \<and> height img' = height img \<and>
           length (pixels img') = length (pixels img) \<and>
           (\<forall>i<length F * 8.
              bit (pixels img' ! (embed_indices E (length (pixels img)) pwd ! i)) 0 = frame_bit F i) \<and>
           (\<forall>p<length (pixels img). \<forall>k. 0 < k \<longrightarrow>
              bit (pixels img' ! p) k = bit (pixels img ! p) k) \<and>
           (\<forall>p<length (pixels img).
              p \<notin> (!) (embed_indices E (length (pixels img)) pwd) ` {0..<length F * 8} \<longrightarrow>
              pixels img' ! p = pixels img ! p)"
proof -
  let ?ix = "embed_indices E (length (pixels img)) pwd"
  from cap have c: "8 * length F \<le> length (pixels img)" by (simp add: mult.commute)
  from embed_lsb_ok [OF dec embed_indices_perm [OF perm] c] obtain new_data
    where e: "embed_lsb E I F pwd = Inr (save_png E (img\<lparr>pixels := new_data\<rparr>))"
      and n: "length new_data = length (pixels img)"
      and w: "\<forall>i<8 * length F. new_data ! (?ix ! i)
                = (pixels img ! (?ix ! i) AND 0xFE) OR of_bool (frame_bit F i)"
      and u: "\<forall>p. p \<notin> (!) ?ix ` {0..<8 * length F} \<longrightarrow> new_data ! p = pixels img ! p"
    by blast
  let ?img' = "img\<lparr>pixels := new_data\<rparr>"
  from png n have d: "image_open_rgb E (save_png E ?img') = Some ?img'"
    by (simp add: png_lossless_def)
  have lsb: "\<forall>i<length F * 8. bit (pixels ?img' ! (?ix ! i)) 0 = frame_bit F i"
    using w by (simp add: mult.commute)
  have high: "bit (pixels ?img' ! p) k = bit (pixels img ! p) k" if k: "0 < k" for p k
  proof (cases "p \<in> (!) ?ix ` {0..<8 * length F}")
    case True
    then obtain i where i: "i < 8 * length F" "p = ?ix ! i" by auto
    with w have "new_data ! p = (pixels img ! p AND 0xFE) OR of_bool (frame_bit F i)" by simp
    then show ?thesis by (simp add: bitk_embed [OF k])
  next
    case False
    with u show ?thesis by simp
  qed
  have rest: "\<forall>p. p \<notin> (!) ?ix ` {0..<length F * 8} \<longrightarrow> pixels ?img' ! p = pixels img ! p"
    using u by (simp add: mult.commute)
  from e d n lsb high rest show ?thesis
    by (intro exI [of _ "save_png E ?img'"] exI [of _ ?img']) simp
qed

text \<open>
  Claim C9 in the test environment: a 2 by 2 carrier with the channel bytes 0xFF and the
  one-byte string 0x00 under the empty password. The stego pixels decode, and the least
  significant bit at each of the first eight indices is the frame's bit.
\<close>

theorem embed_frame_effect_witness:
  "\<exists>stego img'.
     embed_lsb test_env (2 # 2 # replicate 12 0xFF) [0x00] [] = Inr stego \<and>
     image_open_rgb test_env stego = Some img' \<and>
     length (pixels img') = 12 \<and>
     (\<forall>i<8. bit (pixels img' ! (embed_indices test_env 12 [] ! i)) 0 = frame_bit [0x00] i)"
proof -
  let ?img = "\<lparr>width = 2, height = 2, pixels = replicate 12 (0xFF::byte)\<rparr>"
  have dec: "image_open_rgb test_env (2 # 2 # replicate 12 0xFF) = Some ?img"
    by (simp add: test_open_def)
  have perm: "shuffle_permutes test_env (length (pixels ?img))"
    by (rule test_shuffle_permutes)
  have png: "png_lossless test_env ?img"
    by (rule test_png_lossless) (simp_all add: rgb_shaped_def)
  have cap: "length [0x00::byte] * 8 \<le> length (pixels ?img)" by simp
  from embed_frame_effect [OF dec perm png cap, of "[]"] show ?thesis
    by simp blast
qed

text \<open>
  Claim C6. For a carrier that decodes to \<open>W \<times> H\<close> RGB pixels, \<open>embed_lsb\<close> raises
  "Payload too large" if and only if \<open>len(F) * 8 > W * H * 3\<close>. The rejection comes
  before the index order is computed and before any pixel is written: it is the same
  whatever the shuffle and the encoder are, and the result carries no image. A frame that
  fits, also one that fills the capacity exactly, is embedded: 3750 bytes in a 100 by 100
  image succeed and 3751 bytes are rejected.
\<close>

theorem embed_capacity_check:
  assumes dec: "image_open_rgb E I = Some img"
    and shape: "rgb_shaped img"
    and perm: "shuffle_permutes E (length (pixels img))"
  shows "(embed_lsb E I F pwd = Inl PayloadTooLarge \<longleftrightarrow> length F * 8 > width img * height img * 3) \<and>
         (length F * 8 > width img * height img * 3 \<longrightarrow>
            (\<forall>sh sv. embed_lsb (E\<lparr>shuffle := sh, save_png := sv\<rparr>) I F pwd = Inl PayloadTooLarge)) \<and>
         (length F * 8 \<le> width img * height img * 3 \<longrightarrow> (\<exists>stego. embed_lsb E I F pwd = Inr stego)) \<and>
         (width img = 100 \<and> height img = 100 \<and> length F = 3750 \<longrightarrow>
            (\<exists>stego. embed_lsb E I F pwd = Inr stego)) \<and>
         (width img = 100 \<and> height img = 100 \<and> length F = 3751 \<longrightarrow>
            embed_lsb E I F pwd = Inl PayloadTooLarge)"
proof -
  let ?N = "width img * height img * 3"
  from shape have N: "length (pixels img) = ?N" by (simp add: rgb_shaped_def)
  have big: "embed_lsb (E\<lparr>shuffle := sh, save_png := sv\<rparr>) I F pwd = Inl PayloadTooLarge"
    if "length F * 8 > ?N" for sh sv
    using that dec N by (simp add: embed_lsb_def Let_def mult.commute)
  have big': "embed_lsb E I F pwd = Inl PayloadTooLarge" if "length F * 8 > ?N"
    using that dec N by (simp add: embed_lsb_def Let_def mult.commute)
  have fits: "\<exists>stego. embed_lsb E I F pwd = Inr stego" if "length F * 8 \<le> ?N"
  proof -
    from that N have "8 * length F \<le> length (pixels img)" by (simp add: mult.commute)
    from embed_lsb_ok [OF dec embed_indices_perm [OF perm] this] show ?thesis by blast
  qed
  have iff: "embed_lsb E I F pwd = Inl PayloadTooLarge \<longleftrightarrow> length F * 8 > ?N"
  proof
    assume a: "embed_lsb E I F pwd = Inl PayloadTooLarge"
    show "length F * 8 > ?N"
    proof (rule ccontr)
      assume "\<not> length F * 8 > ?N"
      then have "length F * 8 \<le> ?N" by simp
      from fits [OF this] a show False by auto
    qed
  qed (rule big')
  have full: "\<exists>stego. embed_lsb E I F pwd = Inr stego"
    if "width img = 100 \<and> height img = 100 \<and> length F = 3750"
    using that by (intro fits) simp
  have over: "embed_lsb E I F pwd = Inl PayloadTooLarge"
    if "width img = 100 \<and> height img = 100 \<and> length F = 3751"
    using that by (intro big') simp
  from iff big fits full over show ?thesis by blast
qed

text \<open>
  Claim C6 in the test environment: a 100 by 100 carrier takes a frame of 3750 bytes and
  rejects one of 3751 bytes.
\<close>

theorem embed_capacity_check_witness:
  "(\<exists>stego. embed_lsb test_env (100 # 100 # replicate 30000 0) (replicate 3750 0) ''pw'' = Inr stego) \<and>
   embed_lsb test_env (100 # 100 # replicate 30000 0) (replicate 3751 0) ''pw'' = Inl PayloadTooLarge"
proof -
  let ?img = "\<lparr>width = 100, height = 100, pixels = replicate 30000 (0::byte)\<rparr>"
  have dec: "image_open_rgb test_env (100 # 100 # replicate 30000 0) = Some ?img"
    by (simp add: test_open_def)
  have shape: "rgb_shaped ?img" by (simp add: rgb_shaped_def)
  have perm: "shuffle_permutes test_env (length (pixels ?img))"
    by (rule test_shuffle_permutes)
  have a: "width ?img = 100 \<and> height ?img = 100 \<and> length (replicate 3750 (0::byte)) = 3750"
    by simp
  have b: "width ?img = 100 \<and> height ?img = 100 \<and> length (replicate 3751 (0::byte)) = 3751"
    by simp
  from embed_capacity_check [OF dec shape perm, of "replicate 3750 0" "''pw''"] a
  have "\<exists>stego. embed_lsb test_env (100 # 100 # replicate 30000 0) (replicate 3750 0) ''pw'' = Inr stego"
    by blast
  moreover
  from embed_capacity_check [OF dec shape perm, of "replicate 3751 0" "''pw''"] b
  have "embed_lsb test_env (100 # 100 # replicate 30000 0) (replicate 3751 0) ''pw'' = Inl PayloadTooLarge"
    by blast
  ultimately show ?thesis by blast
qed

lemma from_bytes_big_less: "from_bytes_big bs < 256 ^ length bs"
proof (induction bs rule: rev_induct)
  case Nil
  then show ?case by (simp add: from_bytes_big_def)
next
  case (snoc b bs)
  have "unat b < 2 ^ LENGTH(8)" by (rule unsigned_less)
  then have "unat b < 256" by simp
  with snoc have "from_bytes_big bs * 256 + unat b < (from_bytes_big bs + 1) * 256" by simp
  also from snoc have "\<dots> \<le> 256 ^ length bs * 256"
    by (intro mult_le_mono1) simp
  finally show ?case by (simp add: from_bytes_big_snoc)
qed

lemma seed_less:
  "seed_from_password E pwd = Some seed \<Longrightarrow> seed < 2 ^ 64"
proof -
  assume "seed_from_password E pwd = Some seed"
  then have s: "seed = from_bytes_big (take 8 (sha256 E (str_encode E pwd)))"
    by (auto simp: seed_from_password_def Let_def split: if_splits)
  have "from_bytes_big (take 8 (sha256 E (str_encode E pwd)))
          < 256 ^ length (take 8 (sha256 E (str_encode E pwd)))"
    by (rule from_bytes_big_less)
  also have "\<dots> \<le> (256::nat) ^ 8"
    by (intro power_increasing) simp_all
  finally show ?thesis by (simp add: s)
qed

text \<open>
  Claim C4. \<open>embed_lsb\<close> and \<open>extract_lsb\<close> compute the same index order from the number
  \<open>N\<close> of channel bytes and the password. With no password it is \<open>[0, N)\<close>. With a password
  it is the shuffle of the whole of \<open>[0, N)\<close> under the seed that the first 8 bytes of
  SHA-256(password) spell big-endian, a number below \<open>2^64\<close>; it is a permutation of
  \<open>[0, N)\<close> when the shuffle permutes.
\<close>

theorem index_ordering:
  "embed_indices E n pwd = extract_indices E n pwd \<and>
   (pwd = [] \<longrightarrow> embed_indices E n pwd = [0..<n]) \<and>
   (pwd \<noteq> [] \<longrightarrow>
      (let seed = from_bytes_big (take 8 (sha256 E (str_encode E pwd)))
       in seed < 2 ^ 64 \<and> embed_indices E n pwd = shuffle E seed [0..<n])) \<and>
   (shuffle_permutes E n \<longrightarrow> mset (embed_indices E n pwd) = mset [0..<n])"
proof (intro conjI impI)
  show "embed_indices E n pwd = extract_indices E n pwd"
    by (simp add: embed_indices_def extract_indices_def)
  show "embed_indices E n pwd = [0..<n]" if "pwd = []"
    using that by (simp add: embed_indices_def seed_from_password_def)
  show "let seed = from_bytes_big (take 8 (sha256 E (str_encode E pwd)))
       in seed < 2 ^ 64 \<and> embed_indices E n pwd = shuffle E seed [0..<n]" if "pwd \<noteq> []"
  proof -
    from that have s: "seed_from_password E pwd
                         = Some (from_bytes_big (take 8 (sha256 E (str_encode E pwd))))"
      by (simp add: seed_from_password_def)
    from seed_less [OF s] s show ?thesis
      by (simp add: embed_indices_def Let_def)
  qed
  show "mset (embed_indices E n pwd) = mset [0..<n]" if "shuffle_permutes E n"
    by (rule embed_indices_perm [OF that])
qed

text \<open>
  Claim C4 in the test environment, for four channel bytes: the order without a password,
  and the order under \<open>"pw"\<close>, whose seed \<open>0x7077000000000000\<close> is even, so that the
  test shuffle reverses.
\<close>

theorem index_ordering_witness:
  "embed_indices test_env 4 [] = [0, 1, 2, 3] \<and> extract_indices test_env 4 [] = [0, 1, 2, 3] \<and>
   embed_indices test_env 4 ''pw'' = [3, 2, 1, 0] \<and> extract_indices test_env 4 ''pw'' = [3, 2, 1, 0]"
proof -
  have u: "[0..<4] = [0, 1, 2, 3]" by (simp add: upt_rec)
  from index_ordering [of test_env 4 "[]"]
  have a1: "embed_indices test_env 4 [] = extract_indices test_env 4 []"
    and a2: "embed_indices test_env 4 [] = [0..<4]"
    by blast+
  have a: "embed_indices test_env 4 [] = [0, 1, 2, 3] \<and> extract_indices test_env 4 [] = [0, 1, 2, 3]"
    by (simp only: a1 [symmetric] a2 u)
  have e: "''pw'' \<noteq> []" by simp
  have r: "replicate 6 (0::byte) = [0, 0, 0, 0, 0, 0]" by (simp add: numeral_eq_Suc)
  have s: "from_bytes_big (take 8 (sha256 test_env (str_encode test_env ''pw''))) = 0x7077000000000000"
    by (simp add: from_bytes_big_def r)
  note T = index_ordering [of test_env 4 "''pw''", unfolded Let_def]
  from T have b1: "embed_indices test_env 4 ''pw'' = extract_indices test_env 4 ''pw''"
    by (rule conjunct1)
  from T e have b2: "embed_indices test_env 4 ''pw''
               = shuffle test_env (from_bytes_big (take 8 (sha256 test_env (str_encode test_env ''pw'')))) [0..<4]"
    by blast
  have "shuffle test_env 0x7077000000000000 [0..<4] = [3, 2, 1, 0]"
    by (simp add: u)
  with b2 have b3: "embed_indices test_env 4 ''pw'' = [3, 2, 1, 0]" by (simp only: s)
  with b1 have "extract_indices test_env 4 ''pw'' = [3, 2, 1, 0]" by simp
  with a b3 show ?thesis by blast
qed

text \<open>
  Claim C8. For a buffer that decodes to an image of width \<open>W\<close> and height \<open>H\<close>,
  \<open>lsb_capacity_bytes\<close> is \<open>(W * H * 3) // 8\<close>; for a buffer that does not decode it is 0.
  It is a function of the buffer: nothing else is read or written.
\<close>

theorem lsb_capacity_exact:
  "(\<forall>img. image_open_rgb E b = Some img \<longrightarrow>
      lsb_capacity_bytes E b = (width img * height img * 3) div 8) \<and>
   (image_open_rgb E b = None \<longrightarrow> lsb_capacity_bytes E b = 0)"
  by (simp add: lsb_capacity_bytes_def Let_def)

text \<open>
  Claim C8 in the test environment: 3750 bytes for a 100 by 100 image, 4 bytes (of 36
  bits) for a 4 by 3 image, and 0 for the empty buffer.
\<close>

theorem lsb_capacity_exact_witness:
  "lsb_capacity_bytes test_env (100 # 100 # replicate 30000 0) = 3750 \<and>
   lsb_capacity_bytes test_env (4 # 3 # replicate 36 0) = 4 \<and>
   lsb_capacity_bytes test_env [] = 0"
proof -
  have a: "image_open_rgb test_env (100 # 100 # replicate 30000 0)
             = Some \<lparr>width = 100, height = 100, pixels = replicate 30000 0\<rparr>"
    by (simp add: test_open_def)
  have b: "image_open_rgb test_env (4 # 3 # replicate 36 0)
             = Some \<lparr>width = 4, height = 3, pixels = replicate 36 0\<rparr>"
    by (simp add: test_open_def)
  have c: "image_open_rgb test_env [] = None"
    by (simp add: test_open_def)
  from lsb_capacity_exact [of test_env "100 # 100 # replicate 30000 0"] a
  have "lsb_capacity_bytes test_env (100 # 100 # replicate 30000 0) = 3750" by simp
  moreover from lsb_capacity_exact [of test_env "4 # 3 # replicate 36 0"] b
  have "lsb_capacity_bytes test_env (4 # 3 # replicate 36 0) = 4" by simp
  moreover from lsb_capacity_exact [of test_env "[]"] c
  have "lsb_capacity_bytes test_env [] = 0" by simp
  ultimately show ?thesis by blast
qed

subsection \<open>Two passwords with one seed\<close>

lemma seed_collision_exists:
  "\<exists>p p'. p \<noteq> [] \<and> p' \<noteq> [] \<and> p \<noteq> p' \<and> seed_from_password E p = seed_from_password E p'"
proof -
  let ?A = "{p :: string. p \<noteq> []}"
  have "?A = UNIV - {[]}" by auto
  then have inf: "\<not> finite ?A" by (simp add: infinite_UNIV_listI)
  have "seed_from_password E ` ?A \<subseteq> Some ` {..<2 ^ 64}"
  proof
    fix s assume "s \<in> seed_from_password E ` ?A"
    then obtain p where p: "p \<noteq> []" "s = seed_from_password E p" by auto
    then obtain n where n: "seed_from_password E p = Some n"
      by (simp add: seed_from_password_def)
    from seed_less [OF n] p n show "s \<in> Some ` {..<2 ^ 64}" by simp
  qed
  then have fin: "finite (seed_from_password E ` ?A)"
    by (rule finite_subset) simp
  from pigeonhole_infinite [OF inf fin] obtain p
    where p: "p \<in> ?A" and i: "\<not> finite {a \<in> ?A. seed_from_password E a = seed_from_password E p}"
    by blast
  from i have "\<not> finite ({a \<in> ?A. seed_from_password E a = seed_from_password E p} - {p})"
    by simp
  then have "{a \<in> ?A. seed_from_password E a = seed_from_password E p} - {p} \<noteq> {}"
    by (metis finite.emptyI)
  then obtain p' where "p' \<in> ?A" "seed_from_password E p' = seed_from_password E p" "p' \<noteq> p"
    by blast
  with p show ?thesis by (intro exI [of _ p] exI [of _ p']) auto
qed

lemma same_seed_same_indices:
  "seed_from_password E pwd' = seed_from_password E pwd \<Longrightarrow>
   extract_indices E n pwd' = embed_indices E n pwd"
  by (simp add: extract_indices_def embed_indices_def)

subsection \<open>What \<open>extract_lsb\<close> returns\<close>

lemma from_bitstring_lsb_string:
  "\<exists>ws. from_bitstring (lsb_string data ix (8 * k)) = Inr ws \<and> length ws = k \<and>
        to_bitstring ws = lsb_string data ix (8 * k)"
proof -
  have "lsb_string data ix (8 * k) = map digit_char (map (\<lambda>i. bit (data ! (ix ! i)) 0) [0..<8 * k])"
    by (simp add: lsb_string_def)
  moreover have "length (map (\<lambda>i. bit (data ! (ix ! i)) 0) [0..<8 * k]) = 8 * k" by simp
  ultimately show ?thesis
    using from_bitstring_digits [of "map (\<lambda>i. bit (data ! (ix ! i)) 0) [0..<8 * k]" k]
    by simp
qed

lemma extract_lsb_marker:
  assumes dec: "image_open_rgb E stego = Some img"
    and perm: "mset (extract_indices E (length (pixels img)) pwd) = mset [0..<length (pixels img)]"
    and big: "104 \<le> length (pixels img)"
  shows "(extract_lsb E stego pwd = Inl MarkerNotFound \<longleftrightarrow>
            lsb_string (pixels img) (extract_indices E (length (pixels img)) pwd) 40
              \<noteq> to_bitstring MARKER) \<and>
         (\<forall>r. extract_lsb E stego pwd = Inr r \<longrightarrow> take 5 r = MARKER)"
proof -
  let ?data = "pixels img"
  let ?ix = "extract_indices E (length ?data) pwd"
  from extract_lsb_eq [OF dec perm big] obtain hb
    where hb: "length hb = 13" "to_bitstring hb = lsb_string ?data ?ix 104"
      and x: "extract_lsb E stego pwd =
             (if take 5 hb \<noteq> MARKER then Inl MarkerNotFound
              else if length ?data < (13 + from_bytes_big (drop 5 hb)) * 8
                then Inl LengthExceedsCapacity
              else from_bitstring (lsb_string ?data ?ix ((13 + from_bytes_big (drop 5 hb)) * 8)))"
    by blast
  let ?k = "13 + from_bytes_big (drop 5 hb)"
  from from_bitstring_lsb_string [of ?data ?ix ?k] obtain ws
    where ws: "from_bitstring (lsb_string ?data ?ix (?k * 8)) = Inr ws"
      "to_bitstring ws = lsb_string ?data ?ix (?k * 8)"
    by (auto simp: mult.commute)
  have "to_bitstring (take 5 hb) = take (8 * 5) (to_bitstring hb)"
    by (rule take_to_bitstring [symmetric])
  also have "\<dots> = lsb_string ?data ?ix 40"
    by (simp add: hb(2) lsb_string_take)
  finally have h40: "to_bitstring (take 5 hb) = lsb_string ?data ?ix 40" .
  have m: "take 5 hb = MARKER \<longleftrightarrow> lsb_string ?data ?ix 40 = to_bitstring MARKER"
    using h40 to_bitstring_inj [of "take 5 hb" MARKER] by auto
  have a: "extract_lsb E stego pwd = Inl MarkerNotFound \<longleftrightarrow>
             lsb_string ?data ?ix 40 \<noteq> to_bitstring MARKER"
    using x ws(1) m by (auto split: if_splits)
  have b: "take 5 r = MARKER" if r: "extract_lsb E stego pwd = Inr r" for r
  proof -
    from r x have mk: "take 5 hb = MARKER" by (auto split: if_splits)
    from r x ws(1) have "r = ws" by (auto split: if_splits)
    with ws(2) have "to_bitstring r = lsb_string ?data ?ix (?k * 8)" by simp
    then have "take (8 * 5) (to_bitstring r) = lsb_string ?data ?ix 40"
      by (simp add: lsb_string_take)
    then have "to_bitstring (take 5 r) = lsb_string ?data ?ix 40"
      by (simp only: take_to_bitstring)
    with h40 mk have "to_bitstring (take 5 r) = to_bitstring MARKER" by simp
    then show ?thesis by (rule to_bitstring_inj)
  qed
  from a b show ?thesis by blast
qed

lemma embed_lsb_Inr_cap:
  "image_open_rgb E I = Some img \<Longrightarrow> embed_lsb E I F pwd = Inr stego \<Longrightarrow>
   8 * length F \<le> length (pixels img)"
  by (auto simp: embed_lsb_def Let_def split: if_splits)

subsection \<open>Extraction with another password\<close>

text \<open>
  Claim C5, amended. Take a stego image produced by \<open>embed_lsb(I, F, pwd)\<close> from a
  carrier of at least 104 channel bytes, and any password \<open>pwd'\<close> (a different one in
  particular). \<open>extract_lsb\<close> with \<open>pwd'\<close> raises "Marker not found in LSB data" exactly
  when the 40 least significant bits at the first 40 indices of the order of \<open>pwd'\<close> do
  not spell the marker; whatever it returns begins with the marker; and when \<open>pwd'\<close>
  derives the seed of \<open>pwd\<close> and \<open>F\<close> is a frame, it returns \<open>F\<close>.
\<close>

theorem wrong_password_extraction:
  assumes dec: "image_open_rgb E I = Some img"
    and perm: "shuffle_permutes E (length (pixels img))"
    and png: "png_lossless E img"
    and big: "104 \<le> length (pixels img)"
    and emb: "embed_lsb E I F pwd = Inr stego"
  shows "\<exists>img'. image_open_rgb E stego = Some img' \<and>
           length (pixels img') = length (pixels img) \<and>
           (extract_lsb E stego pwd' = Inl MarkerNotFound \<longleftrightarrow>
              lsb_string (pixels img') (extract_indices E (length (pixels img)) pwd') 40
                \<noteq> to_bitstring MARKER) \<and>
           (\<forall>r. extract_lsb E stego pwd' = Inr r \<longrightarrow> take 5 r = MARKER) \<and>
           (seed_from_password E pwd' = seed_from_password E pwd \<and>
            (\<exists>envelope. length envelope < 2 ^ 64 \<and>
               F = MARKER @ be_digits 8 (length envelope) @ envelope) \<longrightarrow>
              extract_lsb E stego pwd' = Inr F)"
proof -
  let ?N = "length (pixels img)"
  from embed_lsb_Inr_cap [OF dec emb] have cap: "8 * length F \<le> ?N" .
  from embed_lsb_ok [OF dec embed_indices_perm [OF perm] cap, of pwd] emb obtain new_data
    where s: "stego = save_png E (img\<lparr>pixels := new_data\<rparr>)" and n: "length new_data = ?N"
    by auto
  let ?img' = "img\<lparr>pixels := new_data\<rparr>"
  from png n have dec': "image_open_rgb E stego = Some ?img'"
    by (simp add: png_lossless_def s)
  have len': "length (pixels ?img') = ?N" by (simp add: n)
  have perm': "mset (extract_indices E (length (pixels ?img')) pwd') = mset [0..<length (pixels ?img')]"
    unfolding len' by (rule extract_indices_perm [OF perm])
  from big have big': "104 \<le> length (pixels ?img')" by (simp only: len')
  note M = extract_lsb_marker [OF dec' perm' big', unfolded len']
  have same: "extract_lsb E stego pwd' = Inr F"
    if h: "seed_from_password E pwd' = seed_from_password E pwd \<and>
            (\<exists>envelope. length envelope < 2 ^ 64 \<and>
               F = MARKER @ be_digits 8 (length envelope) @ envelope)"
  proof -
    from h obtain envelope where f: "F = MARKER @ be_digits 8 (length envelope) @ envelope"
      and l: "length envelope < 2 ^ 64" by blast
    from h have ix: "extract_indices E ?N pwd' = embed_indices E ?N pwd"
      by (intro same_seed_same_indices) simp
    from lsb_round_trip_core [OF dec embed_indices_perm [OF perm] cap f l png ix] emb
    show ?thesis by auto
  qed
  from dec' len' M same show ?thesis by blast
qed

lemma test_same_seed:
  "seed_from_password test_env ''password1'' = seed_from_password test_env ''password2''"
  by (simp add: seed_from_password_def)

lemma test_carrier_8x5:
  "image_open_rgb test_env (8 # 5 # replicate 120 0)
     = Some \<lparr>width = 8, height = 5, pixels = replicate 120 0\<rparr>"
  by (simp add: test_open_def)

lemma test_frame_PL:
  "MARKER @ [0, 0, 0, 0, 0, 0, 0, 2] @ [0x50, 0x4C]
     = MARKER @ be_digits 8 (length [0x50, 0x4C :: byte]) @ [0x50, 0x4C]"
  by (simp add: be_digits_numeral)

text \<open>
  Claim C5, amended, in the test environment, whose digest keeps the first 32 bytes of
  its input: \<open>"password1"\<close> and \<open>"password2"\<close> derive one seed, and extraction with the
  second returns the frame embedded with the first.
\<close>

theorem wrong_password_extraction_witness:
  "\<exists>stego.
     embed_lsb test_env (8 # 5 # replicate 120 0) (MARKER @ [0, 0, 0, 0, 0, 0, 0, 2] @ [0x50, 0x4C])
       ''password1'' = Inr stego \<and>
     extract_lsb test_env stego ''password2'' = Inr (MARKER @ [0, 0, 0, 0, 0, 0, 0, 2] @ [0x50, 0x4C])"
proof -
  let ?img = "\<lparr>width = 8, height = 5, pixels = replicate 120 (0::byte)\<rparr>"
  let ?I = "8 # 5 # replicate 120 (0::byte)"
  let ?F = "MARKER @ [0, 0, 0, 0, 0, 0, 0, 2] @ [0x50, 0x4C]"
  have perm: "shuffle_permutes test_env (length (pixels ?img))"
    by (rule test_shuffle_permutes)
  have png: "png_lossless test_env ?img"
    by (rule test_png_lossless) (simp_all add: rgb_shaped_def)
  have big: "104 \<le> length (pixels ?img)" by simp
  have cap: "8 * length ?F \<le> length (pixels ?img)" by simp
  from embed_lsb_ok [OF test_carrier_8x5 embed_indices_perm [OF perm] cap, of "''password1''"]
  obtain stego where emb: "embed_lsb test_env ?I ?F ''password1'' = Inr stego" by blast
  have fr: "\<exists>envelope. length envelope < 2 ^ 64 \<and>
              ?F = MARKER @ be_digits 8 (length envelope) @ envelope"
    by (intro exI [of _ "[0x50, 0x4C]"] conjI test_frame_PL) simp
  from wrong_password_extraction [OF test_carrier_8x5 perm png big emb, of "''password2''"]
    test_same_seed [symmetric] fr
  have "extract_lsb test_env stego ''password2'' = Inr ?F" by blast
  with emb show ?thesis by blast
qed

subsection \<open>Extraction with another password, at the libraries' values\<close>

lemma cpython_env_simps [simp]:
  "image_open_rgb cpython_env = test_open"
  "save_png cpython_env = test_save"
  "str_encode cpython_env = map (\<lambda>c. of_nat (of_char c))"
  by (simp_all add: cpython_env_def)

lemma seed_pw: "seed_from_password cpython_env ''pw'' = Some 0x30c952fab122c3f9"
  by (simp add: seed_from_password_def cpython_env_def sha256_pw_def from_bytes_big_def)

lemma seed_k60056: "seed_from_password cpython_env ''k60056'' = Some 0x0e492236b20da16b"
  by (simp add: seed_from_password_def cpython_env_def sha256_k60056_def from_bytes_big_def)

lemma embed_indices_pw: "embed_indices cpython_env 300 ''pw'' = order_pw"
  by (simp add: embed_indices_def seed_pw) (simp add: cpython_env_def)

lemma extract_indices_k60056: "extract_indices cpython_env 300 ''k60056'' = order_k60056"
  by (simp add: extract_indices_def seed_k60056) (simp add: cpython_env_def)

lemma length_crafted_pixels: "length crafted_pixels = 300"
  by (simp add: crafted_pixels_def)

lemma length_stego_pixels: "length stego_pixels = 300"
  by (simp add: stego_pixels_def)

lemma header_bits:
  "to_bitstring (MARKER @ [0, 0, 0, 0, 0, 0, 0, 0]) =
     ''01010011010101000100010101000111001100000000000000000000000000000000000000000000000000000000000000000000''"
  by (simp add: to_bitstring_def format_08b_def MARKER_def upt_rec bit_numeral_simps)

lemma embed_loop_crafted:
  "embed_loop order_pw
     (enumerate 0 ''01010011010101000100010101000111001100000000000000000000000000000000000000000000000000000000000000000000'')
     crafted_pixels = Inr stego_pixels"
  by code_simp

lemma read_bits_stego:
  "read_bits stego_pixels order_k60056 [0..<104] =
     Inr ''01010011010101000100010101000111001100000000000000000000000000000000000000000000000000000000000000000000''"
  by code_simp

lemma length_order_pw: "length order_pw = 300"
  by (simp add: order_pw_def)

lemma length_order_k60056: "length order_k60056 = 300"
  by (simp add: order_k60056_def)

lemma open_crafted:
  "image_open_rgb cpython_env (10 # 10 # crafted_pixels)
     = Some \<lparr>width = 10, height = 10, pixels = crafted_pixels\<rparr>"
  by (simp add: test_open_def length_crafted_pixels)

lemma open_stego:
  "image_open_rgb cpython_env (10 # 10 # stego_pixels)
     = Some \<lparr>width = 10, height = 10, pixels = stego_pixels\<rparr>"
  by (simp add: test_open_def length_stego_pixels)

lemma embed_crafted:
  "embed_lsb cpython_env (10 # 10 # crafted_pixels) (MARKER @ [0, 0, 0, 0, 0, 0, 0, 0]) ''pw''
     = Inr (10 # 10 # stego_pixels)"
proof -
  have l: "length (to_bitstring (MARKER @ [0, 0, 0, 0, 0, 0, 0, 0])) = 104" by simp
  have e: "embed_loop order_pw (enumerate 0 (to_bitstring (MARKER @ [0, 0, 0, 0, 0, 0, 0, 0])))
             crafted_pixels = Inr stego_pixels"
    by (simp only: header_bits embed_loop_crafted)
  show ?thesis
    unfolding embed_lsb_def open_crafted
    by (simp add: Let_def l length_crafted_pixels embed_indices_pw e test_save_def
        del: length_to_bitstring)
qed

lemma extract_stego:
  "extract_lsb cpython_env (10 # 10 # stego_pixels) ''k60056'' = Inr (MARKER @ [0, 0, 0, 0, 0, 0, 0, 0])"
proof -
  let ?F = "MARKER @ [0, 0, 0, 0, 0, 0, 0, 0]"
  have r: "read_bits stego_pixels order_k60056 [0..<104] = Inr (to_bitstring ?F)"
    by (simp only: header_bits read_bits_stego)
  have ln: "from_bytes_big (slice ?F 5 13) = 0"
    by (simp add: slice_def from_bytes_big_def)
  have sw: "startswith ?F MARKER" by (simp add: startswith_def)
  show ?thesis
    unfolding extract_lsb_def open_stego
    by (simp add: Let_def LENGTH_LEN_def length_stego_pixels extract_indices_k60056
        length_order_k60056 r from_to_bitstring sw ln)
qed

text \<open>
  Claim C5 as stated fails on the libraries' own values. Embedding the 13-byte frame
  \<open>b"STEG0"\<close> followed by eight zero bytes into the crafted 10 by 10 carrier under the
  password \<open>"pw"\<close> gives the stego pixels; \<open>extract_lsb\<close> of that image under the different
  password \<open>"k60056"\<close> raises nothing and returns the 13 marker-matching bytes.
\<close>

theorem wrong_password_counterexample:
  "''k60056'' \<noteq> ''pw'' \<and>
   embed_lsb cpython_env (10 # 10 # crafted_pixels) (MARKER @ [0, 0, 0, 0, 0, 0, 0, 0]) ''pw''
     = Inr (10 # 10 # stego_pixels) \<and>
   extract_lsb cpython_env (10 # 10 # stego_pixels) ''k60056''
     = Inr (MARKER @ [0, 0, 0, 0, 0, 0, 0, 0])"
  using embed_crafted extract_stego by simp

subsection \<open>Encryption and decryption\<close>



lemma cpython_crypto_simps [simp]:
  "utf8_encode cpython_crypto = map (\<lambda>c. of_nat (of_char c))"
  "aesgcm_encrypt cpython_crypto = (\<lambda>key nonce data.
         if key = derived_key \<and> nonce = map of_nat [160..<172] \<and>
            data = [0x73, 0x65, 0x63, 0x72, 0x65, 0x74]
         then Inr sealed_secret else Inl CipherError)"
  "aesgcm_decrypt cpython_crypto = (\<lambda>key nonce ct.
         if key = derived_key \<and> nonce = map of_nat [160..<172] \<and> ct = sealed_secret
         then Inr [0x73, 0x65, 0x63, 0x72, 0x65, 0x74] else Inl InvalidTag)"
  by (simp_all add: cpython_crypto_def)







end
